theory Spec2Isabelle
  imports Main "HOL-Library.Word" "HOL-Library.List_Lexorder" "HOL-Library.Char_ord"
begin

section \<open>Data model of main.go\<close>

text \<open>
  Token ids are Go \<open>uint32\<close>, presence stamps and the generation counter are Go
  \<open>uint64\<close>; both wrap around. Go's \<open>int\<close> is taken to be the 64-bit one of the usual
  targets, so the conversion \<open>int(id)\<close> of a \<open>uint32\<close> is its value \<open>unat id\<close>. The
  mismatch counters and lengths are Go \<open>int\<close>s bounded by a slice length; they are
  modelled as \<open>int\<close>. Go strings are byte sequences compared byte-wise, which is the
  lexicographic order on \<open>char list\<close>.
\<close>

type_synonym u32 = "32 word"
type_synonym u64 = "64 word"

subsection \<open>Slice access with the run-time bounds check\<close>

text \<open>
  Indexing a Go slice out of range panics. \<open>load\<close> and \<open>store\<close> return \<open>None\<close> for the
  panic, so that every index expression of the source is a branch of the model.
\<close>

definition load :: "'a list \<Rightarrow> nat \<Rightarrow> 'a option" where
  "load xs i = (if i < length xs then Some (xs ! i) else None)"

definition store :: "'a list \<Rightarrow> nat \<Rightarrow> 'a \<Rightarrow> 'a list option" where
  "store xs i v = (if i < length xs then Some (xs[i := v]) else None)"

section \<open>validateOptimized\<close>

text \<open>
  The inner loop of lines 288-293: every id of one \<open>matches\<close> list that passes the guard
  \<open>int(matchID) < len(matchesBuffer)\<close> is stamped with the generation.
\<close>

fun markMatches :: "u32 list \<Rightarrow> u64 list \<Rightarrow> u64 \<Rightarrow> u64 list option" where
  "markMatches [] buf g = Some buf"
| "markMatches (matchID # ms) buf g =
     (if unat matchID < length buf
      then (case store buf (unat matchID) g of
              None \<Rightarrow> None
            | Some buf' \<Rightarrow> markMatches ms buf' g)
      else markMatches ms buf g)"

text \<open>
  The outer loop of lines 286-295 (and 325-333): a token with no entry in the table
  (\<open>ok\<close> false) is passed over.
\<close>

fun populate :: "u32 list \<Rightarrow> (u32 \<rightharpoonup> u32 list) \<Rightarrow> u64 list \<Rightarrow> u64 \<Rightarrow> u64 list option" where
  "populate [] wordToMatches buf g = Some buf"
| "populate (wordID # ws) wordToMatches buf g =
     (case wordToMatches wordID of
        None \<Rightarrow> populate ws wordToMatches buf g
      | Some matches \<Rightarrow>
          (case markMatches matches buf g of
             None \<Rightarrow> None
           | Some buf' \<Rightarrow> populate ws wordToMatches buf' g))"

text \<open>The naive duplicate check of lines 302-308 over the elements before position \<open>i\<close>.\<close>

fun isDupe :: "u32 list \<Rightarrow> u32 \<Rightarrow> bool" where
  "isDupe [] wID = False"
| "isDupe (p # ps) wID = (if p = wID then True else isDupe ps wID)"

text \<open>
  The counting loop of lines 298-318 (and 336-355). \<open>prev\<close> holds the elements before
  the current position, \<open>n\<close> is the running counter.
\<close>

fun checkAgainst :: "u32 list \<Rightarrow> u32 list \<Rightarrow> u64 list \<Rightarrow> u64 \<Rightarrow> int \<Rightarrow> int option" where
  "checkAgainst prev [] buf g n = Some n"
| "checkAgainst prev (wID # ws) buf g n =
     (if isDupe prev wID then checkAgainst (prev @ [wID]) ws buf g n
      else if unat wID < length buf
      then (case load buf (unat wID) of
              None \<Rightarrow> None
            | Some c \<Rightarrow> checkAgainst (prev @ [wID]) ws buf g (if c \<noteq> g then n + 1 else n))
      else checkAgainst (prev @ [wID]) ws buf g (n + 1))"

text \<open>The three returns of lines 365-379.\<close>

definition thresholds :: "int \<Rightarrow> int \<Rightarrow> int \<Rightarrow> int \<Rightarrow> bool" where
  "thresholds lenA lenB mismatchesA mismatchesB =
     (if lenB = 3 \<and> mismatchesB > 0 \<and> lenA \<ge> 3 then False
      else if lenA = 3 \<and> mismatchesA > 0 \<and> lenB \<ge> 3 then False
      else if lenA - mismatchesA < 2 \<or> lenB - mismatchesB < 2 then False
      else True)"

text \<open>
  The validator returns its decision together with the scratch buffer it leaves behind;
  \<open>None\<close> would be a panic.
\<close>

definition validateOptimized ::
  "u32 list \<Rightarrow> u32 list \<Rightarrow> (u32 \<rightharpoonup> u32 list) \<Rightarrow> u64 list \<Rightarrow> u64 \<Rightarrow> (bool \<times> u64 list) option" where
  "validateOptimized partsA partsB wordToMatches matchesBuffer gen =
     (let lenA = int (length partsA); lenB = int (length partsB) in
      case populate partsB wordToMatches matchesBuffer gen of
        None \<Rightarrow> None
      | Some buf1 \<Rightarrow>
      (case checkAgainst [] partsA buf1 gen 0 of
        None \<Rightarrow> None
      | Some mismatchesA \<Rightarrow>
      (let gen2 = gen + 1 in
       case populate partsA wordToMatches buf1 gen2 of
        None \<Rightarrow> None
      | Some buf2 \<Rightarrow>
      (case checkAgainst [] partsB buf2 gen2 0 of
        None \<Rightarrow> None
      | Some mismatchesB \<Rightarrow>
          Some (thresholds lenA lenB mismatchesA mismatchesB, buf2)))))"


section \<open>What the validator computes\<close>

text \<open>
  The ids that the marking loop run over a name \<open>B\<close> writes: the union of the table's
  lists of those tokens of \<open>B\<close> that have an entry.
\<close>

definition closure :: "(u32 \<rightharpoonup> u32 list) \<Rightarrow> u32 list \<Rightarrow> u32 set" where
  "closure wm B = (\<Union>w \<in> set B. case wm w of None \<Rightarrow> {} | Some ms \<Rightarrow> set ms)"

text \<open>A token is stamped in a buffer when its cell exists and holds the generation.\<close>

definition stamped :: "u64 list \<Rightarrow> u64 \<Rightarrow> u32 \<Rightarrow> bool" where
  "stamped buf g w \<longleftrightarrow> unat w < length buf \<and> buf ! unat w = g"

text \<open>The buffer in which the cells of the ids in \<open>S\<close> hold \<open>g\<close> and the others are kept.\<close>

fun stamp_from :: "nat \<Rightarrow> u32 set \<Rightarrow> u64 \<Rightarrow> u64 list \<Rightarrow> u64 list" where
  "stamp_from i S g [] = []"
| "stamp_from i S g (c # cs) = (if i \<in> unat ` S then g else c) # stamp_from (Suc i) S g cs"

definition stamp_spec :: "u32 set \<Rightarrow> u64 \<Rightarrow> u64 list \<Rightarrow> u64 list" where
  "stamp_spec S g buf = stamp_from 0 S g buf"

text \<open>The number of distinct tokens of a name that are not stamped.\<close>

definition unstamped :: "u64 list \<Rightarrow> u64 \<Rightarrow> u32 list \<Rightarrow> int" where
  "unstamped buf g A = int (length (filter (\<lambda>a. \<not> stamped buf g a) (remdups A)))"

text \<open>
  The counters and the decision as the code computes them under a fresh generation: a
  token of \<open>A\<close> is matched when its id is below the buffer length \<open>n\<close> and among the
  ids the marking loop over \<open>B\<close> writes. A token of \<open>B\<close> without an entry contributes
  nothing to them.
\<close>

definition stampedBy :: "(u32 \<rightharpoonup> u32 list) \<Rightarrow> nat \<Rightarrow> u32 list \<Rightarrow> u32 \<Rightarrow> bool" where
  "stampedBy wm n B a \<longleftrightarrow> unat a < n \<and> a \<in> closure wm B"

definition mismatch_code :: "(u32 \<rightharpoonup> u32 list) \<Rightarrow> nat \<Rightarrow> u32 list \<Rightarrow> u32 list \<Rightarrow> int" where
  "mismatch_code wm n A B = int (length (filter (\<lambda>a. \<not> stampedBy wm n B a) (remdups A)))"

text \<open>The reject rules of the spec's decision table.\<close>

definition R1 :: "int \<Rightarrow> int \<Rightarrow> int \<Rightarrow> bool" where
  "R1 lenA lenB mismatchB \<longleftrightarrow> lenB = 3 \<and> mismatchB > 0 \<and> lenA \<ge> 3"

definition R2 :: "int \<Rightarrow> int \<Rightarrow> int \<Rightarrow> bool" where
  "R2 lenA lenB mismatchA \<longleftrightarrow> lenA = 3 \<and> mismatchA > 0 \<and> lenB \<ge> 3"

definition R3 :: "int \<Rightarrow> int \<Rightarrow> bool" where
  "R3 matchA matchB \<longleftrightarrow> matchA < 2 \<or> matchB < 2"

definition accept_code :: "(u32 \<rightharpoonup> u32 list) \<Rightarrow> nat \<Rightarrow> u32 list \<Rightarrow> u32 list \<Rightarrow> bool" where
  "accept_code wm n A B =
     (let lenA = int (length A); lenB = int (length B);
          mismatchA = mismatch_code wm n A B; mismatchB = mismatch_code wm n B A
      in \<not> R1 lenA lenB mismatchB \<and> \<not> R2 lenA lenB mismatchA
         \<and> \<not> R3 (lenA - mismatchA) (lenB - mismatchB))"

text \<open>
  The counters and the decision in the spec's words (section 4.4): marking from \<open>B\<close>
  stamps, for every token \<open>w\<close> of \<open>B\<close>, every id of \<open>WordMatches[w]\<close>, using \<open>{w}\<close> if
  the entry is absent; \<open>mismatchA\<close> is the number of distinct tokens of \<open>A\<close> that are
  not stamped; the pair is accepted when none of R1, R2, R3 holds.
\<close>

definition closure_spec :: "(u32 \<rightharpoonup> u32 list) \<Rightarrow> u32 list \<Rightarrow> u32 set" where
  "closure_spec wm B = (\<Union>w \<in> set B. case wm w of None \<Rightarrow> {w} | Some ms \<Rightarrow> set ms)"

definition mismatch_spec :: "(u32 \<rightharpoonup> u32 list) \<Rightarrow> u32 list \<Rightarrow> u32 list \<Rightarrow> int" where
  "mismatch_spec wm A B = int (length (filter (\<lambda>a. a \<notin> closure_spec wm B) (remdups A)))"

definition accept_spec :: "(u32 \<rightharpoonup> u32 list) \<Rightarrow> u32 list \<Rightarrow> u32 list \<Rightarrow> bool" where
  "accept_spec wm A B =
     (let lenA = int (length A); lenB = int (length B);
          mismatchA = mismatch_spec wm A B; mismatchB = mismatch_spec wm B A
      in \<not> R1 lenA lenB mismatchB \<and> \<not> R2 lenA lenB mismatchA
         \<and> \<not> R3 (lenA - mismatchA) (lenB - mismatchB))"

section \<open>The interning dictionary\<close>

record Dictionary =
  strToInt :: "string \<rightharpoonup> u32"
  intToStr :: "string list"

text \<open>\<open>GetStr\<close> indexes \<open>intToStr\<close>; an id that was never assigned panics.\<close>

definition GetStr :: "Dictionary \<Rightarrow> u32 \<Rightarrow> string option" where
  "GetStr d i = load (intToStr d) (unat i)"

section \<open>buildExpandedPairMappings\<close>

text \<open>
  The in-place unique loop of lines 397-404 over the sorted options: an element is kept
  at index 0 or when it differs from the last kept one (\<open>lastv\<close> is the source's \<open>last\<close>).
\<close>

fun uniqueLoop :: "nat \<Rightarrow> u32 \<Rightarrow> u32 list \<Rightarrow> u32 list" where
  "uniqueLoop j lastv [] = []"
| "uniqueLoop j lastv (v # vs) =
     (if j = 0 \<or> v \<noteq> lastv then v # uniqueLoop (Suc j) v vs
      else uniqueLoop (Suc j) lastv vs)"

text \<open>
  Lines 386-405 for one position: the word itself, then its replacements if the table
  has an entry, sorted by id and made unique.
\<close>

definition positionOption :: "(u32 \<rightharpoonup> u32 list) \<Rightarrow> u32 \<Rightarrow> u32 list" where
  "positionOption tradeoutSets wordID =
     (let opts = [wordID] @ (case tradeoutSets wordID of None \<Rightarrow> [] | Some replacements \<Rightarrow> replacements)
      in uniqueLoop 0 0 (sort opts))"

definition positionOptions :: "(u32 \<rightharpoonup> u32 list) \<Rightarrow> u32 list \<Rightarrow> u32 list list" where
  "positionOptions tradeoutSets parts = map (positionOption tradeoutSets) parts"

text \<open>The decimal rendering of \<open>%d\<close>.\<close>

definition digitChar :: "nat \<Rightarrow> char" where
  "digitChar d = ''0123456789'' ! d"

fun decimal :: "nat \<Rightarrow> string" where
  "decimal n = (if n < 10 then [digitChar n] else decimal (n div 10) @ [digitChar (n mod 10)])"

declare decimal.simps [simp del]

text \<open>\<open>writeIDs\<close>, lines 455-462: the ids in decimal, separated by commas.\<close>

fun writeLoop :: "nat \<Rightarrow> u32 list \<Rightarrow> string" where
  "writeLoop k [] = []"
| "writeLoop k (i # ids) =
     (if k > 0 then '','' else []) @ decimal (unat i) @ writeLoop (Suc k) ids"

definition writeIDs :: "u32 list \<Rightarrow> string" where
  "writeIDs ids = writeLoop 0 ids"

text \<open>The position-pair key of lines 417-428.\<close>

definition dedupKey :: "u32 list \<Rightarrow> u32 list \<Rightarrow> string" where
  "dedupKey optsI optsJ =
     (let s1 = writeIDs optsI; s2 = writeIDs optsJ;
          (first, second) = (if s1 > s2 then (s2, s1) else (s1, s2))
      in first @ ''|'' @ second)"

text \<open>The pair-key of lines 439-447: the two strings in string order, joined by an underscore.\<close>

definition pairKey :: "string \<Rightarrow> string \<Rightarrow> string" where
  "pairKey str1 str2 =
     (let (str1, str2) = (if str1 > str2 then (str2, str1) else (str1, str2))
      in str1 @ ''_'' @ str2)"

text \<open>The loop over \<open>wJ\<close> (lines 437-448) and the loop over \<open>wI\<close> (line 436).\<close>

fun emitRow :: "Dictionary \<Rightarrow> u32 \<Rightarrow> u32 list \<Rightarrow> string list \<Rightarrow> string list option" where
  "emitRow dict wI [] results = Some results"
| "emitRow dict wI (wJ # js) results =
     (case GetStr dict wI of
        None \<Rightarrow> None
      | Some str1 \<Rightarrow>
          (case GetStr dict wJ of
             None \<Rightarrow> None
           | Some str2 \<Rightarrow> emitRow dict wI js (results @ [pairKey str1 str2])))"

fun emitProduct :: "Dictionary \<Rightarrow> u32 list \<Rightarrow> u32 list \<Rightarrow> string list \<Rightarrow> string list option" where
  "emitProduct dict [] optsJ results = Some results"
| "emitProduct dict (wI # is) optsJ results =
     (case emitRow dict wI optsJ results of
        None \<Rightarrow> None
      | Some results' \<Rightarrow> emitProduct dict is optsJ results')"

text \<open>
  The loop over \<open>j\<close> (lines 414-450) for a fixed \<open>i\<close>, over the options of the later
  positions, and the loop over \<open>i\<close> (line 413). The state is \<open>seenPairs\<close> and \<open>results\<close>.
\<close>

fun loopJ ::
  "Dictionary \<Rightarrow> u32 list \<Rightarrow> u32 list list \<Rightarrow> string set \<times> string list
     \<Rightarrow> (string set \<times> string list) option" where
  "loopJ dict optsI [] st = Some st"
| "loopJ dict optsI (optsJ # rest) (seenPairs, results) =
     (let key = dedupKey optsI optsJ in
      if key \<in> seenPairs then loopJ dict optsI rest (seenPairs, results)
      else (case emitProduct dict optsI optsJ results of
              None \<Rightarrow> None
            | Some results' \<Rightarrow> loopJ dict optsI rest (insert key seenPairs, results')))"

fun loopI ::
  "Dictionary \<Rightarrow> u32 list list \<Rightarrow> string set \<times> string list
     \<Rightarrow> (string set \<times> string list) option" where
  "loopI dict [] st = Some st"
| "loopI dict (optsI # rest) st =
     (case loopJ dict optsI rest st of
        None \<Rightarrow> None
      | Some st' \<Rightarrow> loopI dict rest st')"

definition buildExpandedPairMappings ::
  "u32 list \<Rightarrow> (u32 \<rightharpoonup> u32 list) \<Rightarrow> Dictionary \<Rightarrow> string list option" where
  "buildExpandedPairMappings parts tradeoutSets dict =
     (case loopI dict (positionOptions tradeoutSets parts) ({}, []) of
        None \<Rightarrow> None
      | Some (seenPairs, results) \<Rightarrow> Some results)"

section \<open>What the pair-key builder computes\<close>

text \<open>The options of a position as a set: the word and the replacements of its entry.\<close>

definition optionSet :: "(u32 \<rightharpoonup> u32 list) \<Rightarrow> u32 \<Rightarrow> u32 set" where
  "optionSet tradeoutSets w = insert w (case tradeoutSets w of None \<Rightarrow> {} | Some r \<Rightarrow> set r)"

text \<open>The string of an id that is in the dictionary.\<close>

definition str :: "Dictionary \<Rightarrow> u32 \<Rightarrow> string" where
  "str d w = intToStr d ! unat w"

text \<open>The pair-keys of the Cartesian product of two option lists, in emission order.\<close>

definition prodList :: "Dictionary \<Rightarrow> u32 list \<Rightarrow> u32 list \<Rightarrow> string list" where
  "prodList d a b = concat (map (\<lambda>wI. map (\<lambda>wJ. pairKey (str d wI) (str d wJ)) b) a)"

text \<open>The pair-keys of all position pairs \<open>i < j\<close>.\<close>

fun allKeys :: "Dictionary \<Rightarrow> u32 list list \<Rightarrow> string set" where
  "allKeys d [] = {}"
| "allKeys d (a # rest) = (\<Union>b \<in> set rest. set (prodList d a b)) \<union> allKeys d rest"

text \<open>
  The invariant of the loops over position pairs: the product of every position pair whose
  key is in \<open>seenPairs\<close> is already among the results. And: all ids of a list are in
  the dictionary.
\<close>

definition seenInv :: "Dictionary \<Rightarrow> string set \<Rightarrow> string list \<Rightarrow> bool" where
  "seenInv d seen res \<longleftrightarrow> (\<forall>a b. dedupKey a b \<in> seen \<longrightarrow> set (prodList d a b) \<subseteq> set res)"

definition inDict :: "Dictionary \<Rightarrow> u32 list \<Rightarrow> bool" where
  "inDict d a \<longleftrightarrow> (\<forall>w \<in> set a. unat w < length (intToStr d))"

section \<open>preprocessData: converting the equivalence table\<close>

text \<open>\<open>NewDictionary\<close> and \<open>GetID\<close>, lines 32-47: a new string gets the next id.\<close>

definition NewDictionary :: Dictionary where
  "NewDictionary = \<lparr>strToInt = Map.empty, intToStr = []\<rparr>"

definition GetID :: "Dictionary \<Rightarrow> string \<Rightarrow> u32 \<times> Dictionary" where
  "GetID d s =
     (case strToInt d s of
        Some i \<Rightarrow> (i, d)
      | None \<Rightarrow>
          (let i = of_nat (length (intToStr d)) in
           (i, d\<lparr>intToStr := intToStr d @ [s], strToInt := (strToInt d)(s \<mapsto> i)\<rparr>)))"

text \<open>The loop of lines 164-167: the match list converted to ids, interning as it goes.\<close>

fun matchIDsOf :: "string list \<Rightarrow> Dictionary \<Rightarrow> u32 list \<times> Dictionary" where
  "matchIDsOf [] dict = ([], dict)"
| "matchIDsOf (m # ms) dict =
     (let (i, dict1) = GetID dict m;
          (ids, dict2) = matchIDsOf ms dict1
      in (i # ids, dict2))"

text \<open>
  The loop of lines 160-177 over the entries of \<open>raw.WordToMatches\<close>, taken in the order
  in which the map iteration yields them. The state is the dictionary, \<open>w2m\<close> and
  \<open>tradeouts\<close>.
\<close>

fun convertWordToMatches ::
  "(string \<times> string list) list \<Rightarrow> Dictionary \<times> (u32 \<rightharpoonup> u32 list) \<times> (u32 \<rightharpoonup> u32 list)
     \<Rightarrow> Dictionary \<times> (u32 \<rightharpoonup> u32 list) \<times> (u32 \<rightharpoonup> u32 list)" where
  "convertWordToMatches [] st = st"
| "convertWordToMatches ((k, v) # rest) (dict, w2m, tradeouts) =
     (let (kID, dict1) = GetID dict k;
          (matchIDs, dict2) = matchIDsOf v dict1;
          w2m' = w2m(kID \<mapsto> matchIDs);
          tradeouts' = (if length k \<noteq> 1 then tradeouts(kID \<mapsto> matchIDs)
                        else tradeouts(kID \<mapsto> [kID]))
      in convertWordToMatches rest (dict2, w2m', tradeouts'))"

text \<open>
  The tradeout rule in id form: what \<open>tradeouts\<close> holds for the table \<open>w2m\<close> and the
  dictionary. For a key \<open>k\<close> with id \<open>kID\<close> it is the list of \<open>w2m[kID]\<close> when
  \<open>len(k) \<noteq> 1\<close> and \<open>[kID]\<close> otherwise, \<open>k\<close> being the dictionary's string of \<open>kID\<close>.
\<close>

definition tradeoutsOf :: "Dictionary \<Rightarrow> (u32 \<rightharpoonup> u32 list) \<Rightarrow> (u32 \<rightharpoonup> u32 list)" where
  "tradeoutsOf d w2m kID =
     (case w2m kID of
        None \<Rightarrow> None
      | Some matchIDs \<Rightarrow>
          (case GetStr d kID of
             None \<Rightarrow> None
           | Some k \<Rightarrow> Some (if length k \<noteq> 1 then matchIDs else [kID])))"

text \<open>
  A dictionary is consistent when every id of \<open>strToInt\<close> indexes its string in
  \<open>intToStr\<close>; a dictionary extends another when it only appends strings; the invariant
  of the conversion loop.
\<close>

definition dictOK :: "Dictionary \<Rightarrow> bool" where
  "dictOK d \<longleftrightarrow>
     (\<forall>s i. strToInt d s = Some i \<longrightarrow> unat i < length (intToStr d) \<and> intToStr d ! unat i = s)"

definition extends :: "Dictionary \<Rightarrow> Dictionary \<Rightarrow> bool" where
  "extends d d' \<longleftrightarrow> (\<exists>new. intToStr d' = intToStr d @ new)"

definition tableInv :: "Dictionary \<times> (u32 \<rightharpoonup> u32 list) \<times> (u32 \<rightharpoonup> u32 list) \<Rightarrow> bool" where
  "tableInv st \<longleftrightarrow>
     (case st of (d, w2m, t) \<Rightarrow>
        dictOK d \<and> (\<forall>kID ms. w2m kID = Some ms \<longrightarrow> unat kID < length (intToStr d))
        \<and> t = tradeoutsOf d w2m)"

text \<open>A table enlarges another when every list of the first is contained in the second's.\<close>

definition enlarges :: "(u32 \<rightharpoonup> u32 list) \<Rightarrow> (u32 \<rightharpoonup> u32 list) \<Rightarrow> bool" where
  "enlarges wm wm' \<longleftrightarrow>
     (\<forall>w. case wm w of None \<Rightarrow> True
          | Some ms \<Rightarrow> (case wm' w of None \<Rightarrow> False | Some ms' \<Rightarrow> set ms \<subseteq> set ms'))"

section \<open>processBatch\<close>

record ProcessedData =
  NameWords :: "string \<rightharpoonup> u32 list"
  WordToMatches :: "u32 \<rightharpoonup> u32 list"
  TradeoutSets :: "u32 \<rightharpoonup> u32 list"
  PairToNames :: "string \<rightharpoonup> string list"
  Dict :: Dictionary

text \<open>
  The state a worker owns (lines 209-216): the scratch buffer, the generation counter, the
  set of match strings seen, and the strings handed to the buffered writer, in order.
  The progress counter and the flushes of the writer do not change what is written and
  are left out.
\<close>

record Worker =
  matchesBuffer :: "u64 list"
  currentGen :: u64
  seenMatches :: "string set"
  written :: "string list"

definition newWorker :: "nat \<Rightarrow> Worker" where
  "newWorker dictSize =
     \<lparr>matchesBuffer = replicate dictSize 0, currentGen = 10, seenMatches = {}, written = []\<rparr>"

text \<open>Indexing \<open>NameWords\<close> with a missing key gives the nil slice.\<close>

definition lookupWords :: "(string \<rightharpoonup> u32 list) \<Rightarrow> string \<Rightarrow> u32 list" where
  "lookupWords m name = (case m name of None \<Rightarrow> [] | Some ids \<Rightarrow> ids)"

text \<open>The format of line 255: an opening parenthesis, the two names in double quotes.\<close>

definition matchString :: "string \<Rightarrow> string \<Rightarrow> string" where
  "matchString n1 n2 =
     ''('' @ [CHR 0x22] @ n1 @ [CHR 0x22] @ '', '' @ [CHR 0x22] @ n2 @ [CHR 0x22] @ '')''"

definition newline :: string where
  "newline = [CHR 0x0A]"

text \<open>Lines 252-254: the generation advances by 2, then the validator runs.\<close>

definition validateCall ::
  "(u32 \<rightharpoonup> u32 list) \<Rightarrow> u32 list \<Rightarrow> u32 list \<Rightarrow> u64 list \<times> u64
     \<Rightarrow> (bool \<times> u64 list \<times> u64) option" where
  "validateCall wm ids1 ids2 st =
     (case st of (buf, gen) \<Rightarrow>
        (let gen = gen + 2 in
         case validateOptimized ids1 ids2 wm buf gen of
           None \<Rightarrow> None
         | Some (ok, buf') \<Rightarrow> Some (ok, buf', gen)))"

text \<open>The body of the loop over \<open>otherNames\<close>, lines 237-260.\<close>

definition processOther :: "ProcessedData \<Rightarrow> string \<Rightarrow> string \<Rightarrow> Worker \<Rightarrow> Worker option" where
  "processOther data name other w =
     (if other = name then Some w
      else
        (let (n1, n2) = (if name > other then (other, name) else (name, other));
             ids1 = lookupWords (NameWords data) n1;
             ids2 = lookupWords (NameWords data) n2
         in case validateCall (WordToMatches data) ids1 ids2 (matchesBuffer w, currentGen w) of
              None \<Rightarrow> None
            | Some (ok, buf', gen') \<Rightarrow>
                (let w' = w\<lparr>matchesBuffer := buf', currentGen := gen'\<rparr> in
                 if ok then
                   (let matchStr = matchString n1 n2 in
                    if matchStr \<in> seenMatches w' then Some w'
                    else Some (w'\<lparr>seenMatches := insert matchStr (seenMatches w'),
                                  written := written w' @ [matchStr @ newline]\<rparr>))
                 else Some w')))"

fun loopOthers :: "ProcessedData \<Rightarrow> string \<Rightarrow> string list \<Rightarrow> Worker \<Rightarrow> Worker option" where
  "loopOthers data name [] w = Some w"
| "loopOthers data name (other # others) w =
     (case processOther data name other w of
        None \<Rightarrow> None
      | Some w' \<Rightarrow> loopOthers data name others w')"

text \<open>The loop over the pair-keys, lines 230-262.\<close>

fun loopPairs :: "ProcessedData \<Rightarrow> string \<Rightarrow> string list \<Rightarrow> Worker \<Rightarrow> Worker option" where
  "loopPairs data name [] w = Some w"
| "loopPairs data name (pairStr # pairs) w =
     (case PairToNames data pairStr of
        None \<Rightarrow> loopPairs data name pairs w
      | Some otherNames \<Rightarrow>
          (case loopOthers data name otherNames w of
             None \<Rightarrow> None
           | Some w' \<Rightarrow> loopPairs data name pairs w'))"

text \<open>The body of the loop over the jobs, lines 219-266.\<close>

definition processName :: "ProcessedData \<Rightarrow> string \<Rightarrow> Worker \<Rightarrow> Worker option" where
  "processName data name w =
     (let namePartsIDs = lookupWords (NameWords data) name in
      if length namePartsIDs < 2 then Some w
      else
        (let w1 = w\<lparr>seenMatches := {}\<rparr> in
         case buildExpandedPairMappings namePartsIDs (TradeoutSets data) (Dict data) of
           None \<Rightarrow> None
         | Some pairs \<Rightarrow> loopPairs data name pairs w1))"

fun loopJobs :: "ProcessedData \<Rightarrow> string list \<Rightarrow> Worker \<Rightarrow> Worker option" where
  "loopJobs data [] w = Some w"
| "loopJobs data (name # jobs) w =
     (case processName data name w of
        None \<Rightarrow> None
      | Some w' \<Rightarrow> loopJobs data jobs w')"

text \<open>
  A worker run over the names it receives from the channel, in order; the result is the
  content of its output file.
\<close>

definition processBatch :: "string list \<Rightarrow> ProcessedData \<Rightarrow> nat \<Rightarrow> string list option" where
  "processBatch jobs data dictSize =
     (case loopJobs data jobs (newWorker dictSize) of
        None \<Rightarrow> None
      | Some w \<Rightarrow> Some (written w))"

text \<open>A sequence of validator calls of one worker, each as in lines 252-254.\<close>

fun runCalls ::
  "(u32 \<rightharpoonup> u32 list) \<Rightarrow> (u32 list \<times> u32 list) list \<Rightarrow> u64 list \<times> u64
     \<Rightarrow> (u64 list \<times> u64) option" where
  "runCalls wm [] st = Some st"
| "runCalls wm ((ids1, ids2) # calls) st =
     (case validateCall wm ids1 ids2 st of
        None \<Rightarrow> None
      | Some (ok, st') \<Rightarrow> runCalls wm calls st')"

text \<open>
  A small input: the names \<open>a b\<close> and \<open>b a\<close>, each token matching itself, both names
  indexed under the pair-key \<open>a_b\<close>.
\<close>

definition exampleData :: ProcessedData where
  "exampleData =
     \<lparr>NameWords = [''a b'' \<mapsto> [0, 1], ''b a'' \<mapsto> [1, 0]],
      WordToMatches = [0 \<mapsto> [0], 1 \<mapsto> [1]],
      TradeoutSets = [0 \<mapsto> [0], 1 \<mapsto> [1]],
      PairToNames = [''a_b'' \<mapsto> [''a b'', ''b a'']],
      Dict = \<lparr>strToInt = [''a'' \<mapsto> 0, ''b'' \<mapsto> 1], intToStr = [''a'', ''b'']\<rparr>\<rparr>"

text \<open>
  The buffer after \<open>k\<close> validator calls of a worker: no cell holds a stamp above the last
  phase generation \<open>2 * k + 11\<close>.
\<close>

definition bufInv :: "nat \<Rightarrow> u64 list \<Rightarrow> bool" where
  "bufInv k buf \<longleftrightarrow> (\<forall>c \<in> set buf. unat c \<le> 2 * k + 11)"

text \<open>A line of the output: a match string of two names in strictly ascending order.\<close>

definition goodLine :: "string \<Rightarrow> bool" where
  "goodLine line \<longleftrightarrow> (\<exists>n1 n2. line = matchString n1 n2 @ newline \<and> n1 < n2)"

text \<open>
  The invariant of the loops for one name: the lines written since the name was started
  are distinct and are the lines of the match strings in \<open>seenMatches\<close>.
\<close>

definition nameInv :: "string list \<Rightarrow> Worker \<Rightarrow> bool" where
  "nameInv base w \<longleftrightarrow>
     (\<exists>new. written w = base @ new \<and> distinct new
            \<and> set new = (\<lambda>s. s @ newline) ` seenMatches w)"

text \<open>
  Processed data is well formed when the tokens of every name, and the ids their
  Tradeouts lists hold, are ids of the dictionary (as interning makes them).
\<close>

definition wellFormed :: "ProcessedData \<Rightarrow> bool" where
  "wellFormed data \<longleftrightarrow>
     (\<forall>name ids. NameWords data name = Some ids \<longrightarrow>
        (\<forall>w \<in> set ids. \<forall>v \<in> optionSet (TradeoutSets data) w.
            unat v < length (intToStr (Dict data))))"

section \<open>What a worker writes\<close>

text \<open>The two names in ascending order, as lines 241-244 arrange them.\<close>

definition canon :: "string \<Rightarrow> string \<Rightarrow> string \<times> string" where
  "canon name other = (if name > other then (other, name) else (name, other))"

text \<open>
  The lines a worker with a buffer of length \<open>n\<close> owes for one candidate, for one list of
  candidates, for a list of pair-keys, for a name and for its jobs: the match strings of
  the candidates other than the name itself that the match predicate accepts.
\<close>

definition otherLines :: "ProcessedData \<Rightarrow> nat \<Rightarrow> string \<Rightarrow> string \<Rightarrow> string set" where
  "otherLines data n name other =
     (if other = name then {}
      else (case canon name other of (n1, n2) \<Rightarrow>
        if accept_code (WordToMatches data) n
             (lookupWords (NameWords data) n1) (lookupWords (NameWords data) n2)
        then {matchString n1 n2 @ newline} else {}))"

definition othersLines :: "ProcessedData \<Rightarrow> nat \<Rightarrow> string \<Rightarrow> string list \<Rightarrow> string set" where
  "othersLines data n name others = (\<Union>other \<in> set others. otherLines data n name other)"

definition pairsLines :: "ProcessedData \<Rightarrow> nat \<Rightarrow> string \<Rightarrow> string list \<Rightarrow> string set" where
  "pairsLines data n name pairs =
     (\<Union>p \<in> set pairs. case PairToNames data p of
                          None \<Rightarrow> {}
                        | Some others \<Rightarrow> othersLines data n name others)"

definition nameLines :: "ProcessedData \<Rightarrow> nat \<Rightarrow> string \<Rightarrow> string set" where
  "nameLines data n name =
     (let ids = lookupWords (NameWords data) name in
      if length ids < 2 then {}
      else (case buildExpandedPairMappings ids (TradeoutSets data) (Dict data) of
              None \<Rightarrow> {}
            | Some pairs \<Rightarrow> pairsLines data n name pairs))"

definition outputLines :: "ProcessedData \<Rightarrow> nat \<Rightarrow> string list \<Rightarrow> string set" where
  "outputLines data n jobs = (\<Union>name \<in> set jobs. nameLines data n name)"

text \<open>The number of validator calls of a worker: one per candidate other than the name.\<close>

definition othersCount :: "string \<Rightarrow> string list \<Rightarrow> nat" where
  "othersCount name others = length (filter (\<lambda>other. other \<noteq> name) others)"

definition pairsCount :: "ProcessedData \<Rightarrow> string \<Rightarrow> string list \<Rightarrow> nat" where
  "pairsCount data name pairs =
     sum_list (map (\<lambda>p. case PairToNames data p of
                            None \<Rightarrow> 0
                          | Some others \<Rightarrow> othersCount name others) pairs)"

definition nameCount :: "ProcessedData \<Rightarrow> string \<Rightarrow> nat" where
  "nameCount data name =
     (let ids = lookupWords (NameWords data) name in
      if length ids < 2 then 0
      else (case buildExpandedPairMappings ids (TradeoutSets data) (Dict data) of
              None \<Rightarrow> 0
            | Some pairs \<Rightarrow> pairsCount data name pairs))"

definition jobsCount :: "ProcessedData \<Rightarrow> string list \<Rightarrow> nat" where
  "jobsCount data jobs = sum_list (map (nameCount data) jobs)"

text \<open>The worker's buffer and counter after \<open>k\<close> validator calls.\<close>

definition workerInv :: "nat \<Rightarrow> nat \<Rightarrow> Worker \<Rightarrow> bool" where
  "workerInv n k w \<longleftrightarrow>
     bufInv k (matchesBuffer w) \<and> currentGen w = of_nat (10 + 2 * k)
     \<and> length (matchesBuffer w) = n"

text \<open>The processed data with another equivalence table and the Tradeouts recomputed from it.\<close>

definition withTable :: "ProcessedData \<Rightarrow> (u32 \<rightharpoonup> u32 list) \<Rightarrow> ProcessedData" where
  "withTable data wm = data\<lparr>WordToMatches := wm, TradeoutSets := tradeoutsOf (Dict data) wm\<rparr>"

text \<open>
  A second small input: the names \<open>bill w\<close> and \<open>william w\<close>, indexed under their own
  pair-keys, with a table in which every token matches itself only.
\<close>

definition exampleNames :: ProcessedData where
  "exampleNames =
     \<lparr>NameWords = [''bill w'' \<mapsto> [0, 1], ''william w'' \<mapsto> [2, 1]],
      WordToMatches = [0 \<mapsto> [0], 1 \<mapsto> [1], 2 \<mapsto> [2]],
      TradeoutSets = [0 \<mapsto> [0], 1 \<mapsto> [1], 2 \<mapsto> [2]],
      PairToNames = [''bill_w'' \<mapsto> [''bill w''], ''w_william'' \<mapsto> [''william w'']],
      Dict = \<lparr>strToInt = [''bill'' \<mapsto> 0, ''w'' \<mapsto> 1, ''william'' \<mapsto> 2],
               intToStr = [''bill'', ''w'', ''william'']\<rparr>\<rparr>"

section \<open>The marking and counting loops\<close>

lemma store_in_range: "i < length xs \<Longrightarrow> store xs i v = Some (xs[i := v])"
  by (simp add: store_def)

lemma load_in_range: "i < length xs \<Longrightarrow> load xs i = Some (xs ! i)"
  by (simp add: load_def)

lemma markMatches_char:
  "\<exists>buf'. markMatches ms buf g = Some buf' \<and> length buf' = length buf \<and>
     (\<forall>x < length buf. buf' ! x = (if x \<in> unat ` set ms then g else buf ! x))"
proof (induction ms arbitrary: buf)
  case Nil
  then show ?case by simp
next
  case (Cons m ms)
  show ?case
  proof (cases "unat m < length buf")
    case True
    from Cons.IH [of "buf[unat m := g]"] obtain buf' where
      b: "markMatches ms (buf[unat m := g]) g = Some buf'" "length buf' = length buf"
         "\<forall>x < length buf. buf' ! x = (if x \<in> unat ` set ms then g else buf[unat m := g] ! x)"
      by auto
    have "markMatches (m # ms) buf g = Some buf'"
      using True b(1) by (simp add: store_in_range)
    moreover have "\<forall>x < length buf. buf' ! x = (if x \<in> unat ` set (m # ms) then g else buf ! x)"
      using b(3) True by (auto simp: nth_list_update)
    ultimately show ?thesis using b(2) by blast
  next
    case False
    from Cons.IH [of buf] obtain buf' where
      b: "markMatches ms buf g = Some buf'" "length buf' = length buf"
         "\<forall>x < length buf. buf' ! x = (if x \<in> unat ` set ms then g else buf ! x)"
      by auto
    have "markMatches (m # ms) buf g = Some buf'"
      using False b(1) by simp
    moreover have "\<forall>x < length buf. buf' ! x = (if x \<in> unat ` set (m # ms) then g else buf ! x)"
      using b(3) False by auto
    ultimately show ?thesis using b(2) by blast
  qed
qed

lemma closure_Nil: "closure wm [] = {}"
  by (simp add: closure_def)

lemma closure_Cons:
  "closure wm (w # ws) = (case wm w of None \<Rightarrow> {} | Some ms \<Rightarrow> set ms) \<union> closure wm ws"
  by (simp add: closure_def)

lemma populate_char:
  "\<exists>buf'. populate B wm buf g = Some buf' \<and> length buf' = length buf \<and>
     (\<forall>x < length buf. buf' ! x = (if x \<in> unat ` closure wm B then g else buf ! x))"
proof (induction B arbitrary: buf)
  case Nil
  then show ?case by (simp add: closure_Nil)
next
  case (Cons w ws)
  show ?case
  proof (cases "wm w")
    case None
    from Cons.IH [of buf] show ?thesis
      using None by (simp add: closure_Cons)
  next
    case (Some ms)
    from markMatches_char [of ms buf g] obtain b1 where
      b1: "markMatches ms buf g = Some b1" "length b1 = length buf"
          "\<forall>x < length buf. b1 ! x = (if x \<in> unat ` set ms then g else buf ! x)"
      by auto
    from Cons.IH [of b1] obtain b2 where
      b2: "populate ws wm b1 g = Some b2" "length b2 = length b1"
          "\<forall>x < length b1. b2 ! x = (if x \<in> unat ` closure wm ws then g else b1 ! x)"
      by auto
    have "populate (w # ws) wm buf g = Some b2"
      using Some b1(1) b2(1) by simp
    moreover have "\<forall>x < length buf. b2 ! x = (if x \<in> unat ` closure wm (w # ws) then g else buf ! x)"
      using b1(2,3) b2(3) Some by (auto simp: closure_Cons)
    ultimately show ?thesis using b1(2) b2(2) by auto
  qed
qed

lemma isDupe_iff: "isDupe ps w \<longleftrightarrow> w \<in> set ps"
  by (induction ps) auto

lemma checkAgainst_char:
  "checkAgainst prev ws buf g n =
     Some (n + int (card {w \<in> set ws - set prev. \<not> stamped buf g w}))"
proof (induction ws arbitrary: prev n)
  case Nil
  then show ?case by simp
next
  case (Cons w ws)
  let ?S = "{v \<in> set ws - set (prev @ [w]). \<not> stamped buf g v}"
  let ?T = "{v \<in> set (w # ws) - set prev. \<not> stamped buf g v}"
  have fin: "finite ?S" by simp
  have notin: "w \<notin> ?S" by simp
  show ?case
  proof (cases "w \<in> set prev \<or> stamped buf g w")
    case True
    then have "?T = ?S" by auto
    then show ?thesis
      using True Cons.IH [of "prev @ [w]"]
      by (auto simp: isDupe_iff stamped_def load_in_range)
  next
    case False
    then have "?T = insert w ?S" by auto
    then have "card ?T = Suc (card ?S)"
      using fin notin by simp
    then show ?thesis
      using False Cons.IH [of "prev @ [w]"]
      by (auto simp: isDupe_iff stamped_def load_in_range)
  qed
qed

lemma length_stamp_from: "length (stamp_from i S g buf) = length buf"
  by (induction buf arbitrary: i) simp_all

lemma nth_stamp_from:
  "x < length buf \<Longrightarrow> stamp_from i S g buf ! x = (if i + x \<in> unat ` S then g else buf ! x)"
proof (induction buf arbitrary: i x)
  case Nil
  then show ?case by simp
next
  case (Cons c cs)
  show ?case
  proof (cases x)
    case 0
    then show ?thesis by simp
  next
    case (Suc y)
    with Cons.prems have "y < length cs" by simp
    from Cons.IH [OF this, of "Suc i"] Suc show ?thesis by simp
  qed
qed

lemma set_stamp_from: "set (stamp_from i S g buf) \<subseteq> insert g (set buf)"
  by (induction buf arbitrary: i) auto

lemma length_stamp_spec: "length (stamp_spec S g buf) = length buf"
  by (simp add: stamp_spec_def length_stamp_from)

lemma nth_stamp_spec:
  "x < length buf \<Longrightarrow> stamp_spec S g buf ! x = (if x \<in> unat ` S then g else buf ! x)"
  by (simp add: stamp_spec_def nth_stamp_from)

lemma populate_eq: "populate B wm buf g = Some (stamp_spec (closure wm B) g buf)"
proof -
  from populate_char [of B wm buf g] obtain buf' where
    b: "populate B wm buf g = Some buf'" "length buf' = length buf"
       "\<forall>x < length buf. buf' ! x = (if x \<in> unat ` closure wm B then g else buf ! x)"
    by blast
  have "buf' = stamp_spec (closure wm B) g buf"
    by (rule nth_equalityI) (simp_all add: b(2,3) length_stamp_spec nth_stamp_spec)
  with b(1) show ?thesis by simp
qed

lemma length_filter_remdups: "length (filter P (remdups xs)) = card {x \<in> set xs. P x}"
proof -
  have "distinct (filter P (remdups xs))" by simp
  then have "length (filter P (remdups xs)) = card (set (filter P (remdups xs)))"
    by (simp only: distinct_card)
  then show ?thesis by simp
qed

lemma checkAgainst_unstamped: "checkAgainst [] A buf g 0 = Some (unstamped buf g A)"
  by (simp add: checkAgainst_char unstamped_def length_filter_remdups)

lemma thresholds_rules:
  "thresholds lenA lenB mA mB =
     (\<not> R1 lenA lenB mB \<and> \<not> R2 lenA lenB mA \<and> \<not> R3 (lenA - mA) (lenB - mB))"
  by (auto simp: thresholds_def R1_def R2_def R3_def)

lemma validateOptimized_eq:
  "validateOptimized A B wm buf gen =
     Some (thresholds (int (length A)) (int (length B))
             (unstamped (stamp_spec (closure wm B) gen buf) gen A)
             (unstamped (stamp_spec (closure wm A) (gen + 1) (stamp_spec (closure wm B) gen buf))
                (gen + 1) B),
           stamp_spec (closure wm A) (gen + 1) (stamp_spec (closure wm B) gen buf))"
  by (simp add: validateOptimized_def populate_eq checkAgainst_unstamped Let_def)

lemma unat_image_iff: "unat (a::u32) \<in> unat ` S \<longleftrightarrow> a \<in> S"
proof
  assume "unat a \<in> unat ` S"
  then obtain x where "x \<in> S" "unat a = unat x" by auto
  then show "a \<in> S" using word_unat_eq_iff [of a x] by simp
qed simp

lemma stamped_stamp_spec:
  "g \<notin> set buf \<Longrightarrow> stamped (stamp_spec (closure wm B) g buf) g a = stampedBy wm (length buf) B a"
proof (cases "unat a < length buf")
  case True
  assume "g \<notin> set buf"
  with True have "buf ! unat a \<noteq> g" by (metis nth_mem)
  with True show ?thesis
    by (simp add: stamped_def stampedBy_def length_stamp_spec nth_stamp_spec unat_image_iff)
next
  case False
  then show ?thesis
    by (simp add: stamped_def stampedBy_def length_stamp_spec)
qed

lemma set_stamp_spec: "set (stamp_spec S g buf) \<subseteq> insert g (set buf)"
  by (simp add: stamp_spec_def set_stamp_from)

lemma unstamped_fresh:
  "g \<notin> set buf \<Longrightarrow> unstamped (stamp_spec (closure wm B) g buf) g A = mismatch_code wm (length buf) A B"
  by (simp add: unstamped_def mismatch_code_def stamped_stamp_spec)

lemma fresh_after_stamp: "g' \<notin> set buf \<Longrightarrow> g' \<noteq> g \<Longrightarrow> g' \<notin> set (stamp_spec S g buf)"
  using set_stamp_spec [of S g buf] by auto

lemma unstamped_le_length: "unstamped buf g A \<le> int (length A)"
proof -
  have "card {a \<in> set A. \<not> stamped buf g a} \<le> card (set A)"
    by (rule card_mono) auto
  also have "\<dots> \<le> length A" by (rule card_length)
  finally show ?thesis by (simp add: unstamped_def length_filter_remdups)
qed

lemma validateOptimized_fresh:
  assumes "gen \<notin> set buf" "gen + 1 \<notin> set buf"
  shows "validateOptimized A B wm buf gen =
     Some (accept_code wm (length buf) A B,
           stamp_spec (closure wm A) (gen + 1) (stamp_spec (closure wm B) gen buf))"
proof -
  have "gen + 1 \<notin> set (stamp_spec (closure wm B) gen buf)"
    using assms(2) by (rule fresh_after_stamp) simp
  then have "unstamped (stamp_spec (closure wm A) (gen + 1) (stamp_spec (closure wm B) gen buf))
                (gen + 1) B = mismatch_code wm (length buf) B A"
    using unstamped_fresh [of "gen + 1" "stamp_spec (closure wm B) gen buf" wm A B]
    by (simp add: length_stamp_spec)
  then show ?thesis
    using assms(1)
    by (simp add: validateOptimized_eq unstamped_fresh thresholds_rules accept_code_def Let_def)
qed

lemma closure_spec_total:
  "\<forall>w \<in> set B. wm w \<noteq> None \<Longrightarrow> closure_spec wm B = closure wm B"
  by (auto simp: closure_spec_def closure_def split: option.splits)

lemma mismatch_code_spec:
  assumes "\<forall>w \<in> set B. wm w \<noteq> None" "\<forall>a \<in> set A. unat a < n"
  shows "mismatch_code wm n A B = mismatch_spec wm A B"
proof -
  have "filter (\<lambda>a. \<not> stampedBy wm n B a) (remdups A)
          = filter (\<lambda>a. a \<notin> closure_spec wm B) (remdups A)"
    using assms by (intro filter_cong) (auto simp: stampedBy_def closure_spec_total)
  then show ?thesis by (simp add: mismatch_code_def mismatch_spec_def)
qed

lemma accept_code_spec:
  assumes "\<forall>w \<in> set A \<union> set B. wm w \<noteq> None \<and> unat w < n"
  shows "accept_code wm n A B = accept_spec wm A B"
proof -
  have "mismatch_code wm n A B = mismatch_spec wm A B" "mismatch_code wm n B A = mismatch_spec wm B A"
    using assms by (intro mismatch_code_spec; auto)+
  then show ?thesis by (simp add: accept_code_def accept_spec_def)
qed

lemma accept_code_commute: "accept_code wm n A B = accept_code wm n B A"
  by (auto simp: accept_code_def Let_def R1_def R2_def R3_def)

lemma unstamped_removeAll:
  assumes "w \<in> set A" "\<not> stamped buf g w"
  shows "unstamped buf g A = 1 + unstamped buf g (removeAll w A)"
proof -
  let ?S = "{a \<in> set (removeAll w A). \<not> stamped buf g a}"
  have "{a \<in> set A. \<not> stamped buf g a} = insert w ?S"
    using assms by auto
  moreover have "w \<notin> ?S" by simp
  moreover have "finite ?S" by simp
  ultimately have "card {a \<in> set A. \<not> stamped buf g a} = Suc (card ?S)"
    by simp
  then show ?thesis
    by (simp add: unstamped_def length_filter_remdups)
qed

lemma not_stamped_out_of_range: "length buf \<le> unat w \<Longrightarrow> \<not> stamped buf g w"
  by (simp add: stamped_def)

section \<open>The pair-key builder\<close>

subsection \<open>Decimal rendering is injective\<close>

lemma digitChar_digit: "d < 10 \<Longrightarrow> digitChar d \<in> set ''0123456789''"
  unfolding digitChar_def by (rule nth_mem) simp

lemma digitChar_inj: "d < 10 \<Longrightarrow> e < 10 \<Longrightarrow> digitChar d = digitChar e \<Longrightarrow> d = e"
proof -
  assume a: "d < 10" "e < 10" "digitChar d = digitChar e"
  have "distinct ''0123456789''" by simp
  moreover have "d < length ''0123456789''" "e < length ''0123456789''" using a by simp_all
  ultimately show "d = e"
    using a(3) unfolding digitChar_def by (simp only: nth_eq_iff_index_eq)
qed

lemma decimal_digits: "set (decimal n) \<subseteq> set ''0123456789''"
proof (induction n rule: decimal.induct)
  case (1 n)
  show ?case
  proof (cases "n < 10")
    case True
    then show ?thesis
      using digitChar_digit [of n] by (subst decimal.simps) simp
  next
    case False
    have "n mod 10 < 10" by simp
    then have "digitChar (n mod 10) \<in> set ''0123456789''" by (rule digitChar_digit)
    then show ?thesis
      using False 1 by (subst decimal.simps) simp
  qed
qed

lemma decimal_nonempty: "decimal n \<noteq> []"
  by (subst decimal.simps) simp

lemma decimal_inj: "decimal n = decimal m \<Longrightarrow> n = m"
proof (induction n arbitrary: m rule: decimal.induct)
  case (1 n)
  show ?case
  proof (cases "n < 10")
    case n: True
    show ?thesis
    proof (cases "m < 10")
      case True
      have "decimal n = [digitChar n]" "decimal m = [digitChar m]"
        using n True by (simp_all add: decimal.simps)
      with "1.prems" have "digitChar n = digitChar m" by simp
      then show ?thesis using n True by (rule digitChar_inj [rotated 2])
    next
      case False
      have "decimal n = [digitChar n]" using n by (simp add: decimal.simps)
      moreover have "decimal m = decimal (m div 10) @ [digitChar (m mod 10)]"
        using False by (subst decimal.simps) simp
      ultimately have "decimal (m div 10) = []" using "1.prems" by simp
      then show ?thesis by (simp add: decimal_nonempty)
    qed
  next
    case n: False
    have dn: "decimal n = decimal (n div 10) @ [digitChar (n mod 10)]"
      using n by (subst decimal.simps) simp
    show ?thesis
    proof (cases "m < 10")
      case True
      have "decimal m = [digitChar m]" using True by (simp add: decimal.simps)
      with dn "1.prems" have "decimal (n div 10) = []" by simp
      then show ?thesis by (simp add: decimal_nonempty)
    next
      case False
      have "decimal m = decimal (m div 10) @ [digitChar (m mod 10)]"
        using False by (subst decimal.simps) simp
      with dn "1.prems" have e: "decimal (n div 10) = decimal (m div 10)"
        "digitChar (n mod 10) = digitChar (m mod 10)" by simp_all
      from "1.IH" [OF n e(1)] have q: "n div 10 = m div 10" .
      have "n mod 10 = m mod 10"
        using e(2) by (intro digitChar_inj) simp_all
      with q show ?thesis by (metis div_mult_mod_eq)
    qed
  qed
qed

subsection \<open>The position-pair key determines the unordered pair of option lists\<close>

lemma takeWhile_sep:
  "c \<notin> set a \<Longrightarrow> r = [] \<or> hd r = c \<Longrightarrow> takeWhile (\<lambda>x. x \<noteq> c) (a @ r) = a"
proof (induction a)
  case Nil
  then show ?case by (cases r) simp_all
next
  case (Cons x xs)
  then show ?case by auto
qed

lemma sep_split:
  assumes "c \<notin> set a" "c \<notin> set a'" "r = [] \<or> hd r = c" "r' = [] \<or> hd r' = c"
    and "a @ r = a' @ r'"
  shows "a = a' \<and> r = r'"
proof -
  have 1: "takeWhile (\<lambda>x. x \<noteq> c) (a @ r) = a"
    using assms(1,3) by (rule takeWhile_sep)
  have 2: "takeWhile (\<lambda>x. x \<noteq> c) (a' @ r') = a'"
    using assms(2,4) by (rule takeWhile_sep)
  have "a = a'"
    using 1 2 unfolding assms(5) by (rule trans [OF sym])
  with assms(5) show ?thesis by simp
qed

lemma comma_notin_decimal: "CHR '','' \<notin> set (decimal n)"
  using decimal_digits [of n] by auto

lemma writeLoop_tail_shape: "0 < k \<Longrightarrow> writeLoop k ids = [] \<or> hd (writeLoop k ids) = CHR '',''"
  by (cases ids) simp_all

lemma bar_notin_decimal: "CHR ''|'' \<notin> set (decimal n)"
  using decimal_digits [of n] by auto

lemma bar_notin_writeLoop: "CHR ''|'' \<notin> set (writeLoop k ids)"
  by (induction ids arbitrary: k) (simp_all add: bar_notin_decimal)

lemma writeLoop_tail_inj:
  "0 < k \<Longrightarrow> 0 < k' \<Longrightarrow> writeLoop k xs = writeLoop k' ys \<Longrightarrow> xs = ys"
proof (induction xs arbitrary: ys k k')
  case Nil
  then show ?case by (cases ys) simp_all
next
  case (Cons x xs)
  show ?case
  proof (cases ys)
    case Nil
    with Cons.prems show ?thesis by simp
  next
    case ys: (Cons y ys')
    from Cons.prems ys
    have e: "decimal (unat x) @ writeLoop (Suc k) xs = decimal (unat y) @ writeLoop (Suc k') ys'"
      by simp
    have "decimal (unat x) = decimal (unat y) \<and> writeLoop (Suc k) xs = writeLoop (Suc k') ys'"
      by (rule sep_split [where c = "CHR '',''", OF _ _ _ _ e])
         (simp_all add: comma_notin_decimal writeLoop_tail_shape)
    then have "unat x = unat y" "xs = ys'"
      using decimal_inj Cons.IH [of "Suc k" "Suc k'" ys'] by auto
    then show ?thesis using ys word_unat_eq_iff [of x y] by simp
  qed
qed

lemma writeIDs_inj: "writeIDs xs = writeIDs ys \<Longrightarrow> xs = ys"
proof (cases xs)
  case Nil
  assume "writeIDs xs = writeIDs ys"
  with Nil show ?thesis
    by (cases ys) (simp_all add: writeIDs_def decimal_nonempty)
next
  case xs: (Cons x xs')
  assume w: "writeIDs xs = writeIDs ys"
  show ?thesis
  proof (cases ys)
    case Nil
    with w xs show ?thesis by (simp add: writeIDs_def decimal_nonempty)
  next
    case ys: (Cons y ys')
    from w xs ys
    have e: "decimal (unat x) @ writeLoop (Suc 0) xs' = decimal (unat y) @ writeLoop (Suc 0) ys'"
      by (simp add: writeIDs_def)
    have "decimal (unat x) = decimal (unat y) \<and> writeLoop (Suc 0) xs' = writeLoop (Suc 0) ys'"
      by (rule sep_split [where c = "CHR '',''", OF _ _ _ _ e])
         (simp_all add: comma_notin_decimal writeLoop_tail_shape)
    then have "unat x = unat y" "xs' = ys'"
      using decimal_inj writeLoop_tail_inj [of "Suc 0" "Suc 0" xs' ys'] by auto
    then show ?thesis using xs ys word_unat_eq_iff [of x y] by simp
  qed
qed

lemma bar_notin_writeIDs: "CHR ''|'' \<notin> set (writeIDs ids)"
  by (simp add: writeIDs_def bar_notin_writeLoop)

lemma dedupKey_cases:
  "dedupKey a b = writeIDs a @ CHR ''|'' # writeIDs b \<or> dedupKey a b = writeIDs b @ CHR ''|'' # writeIDs a"
  by (simp add: dedupKey_def Let_def)

lemma dedupKey_commute: "dedupKey a b = dedupKey b a"
  by (auto simp: dedupKey_def Let_def)

lemma bar_split:
  assumes e: "writeIDs a @ CHR ''|'' # writeIDs b = writeIDs a' @ CHR ''|'' # writeIDs b'"
  shows "a = a' \<and> b = b'"
proof -
  have "writeIDs a = writeIDs a' \<and> CHR ''|'' # writeIDs b = CHR ''|'' # writeIDs b'"
    by (rule sep_split [where c = "CHR ''|''", OF _ _ _ _ e]) (simp_all add: bar_notin_writeIDs)
  then show ?thesis by (auto dest: writeIDs_inj)
qed

lemma dedupKey_inj:
  assumes "dedupKey a b = dedupKey a' b'"
  shows "(a = a' \<and> b = b') \<or> (a = b' \<and> b = a')"
proof -
  consider "dedupKey a b = writeIDs a @ CHR ''|'' # writeIDs b" | "dedupKey a b = writeIDs b @ CHR ''|'' # writeIDs a"
    using dedupKey_cases [of a b] by blast
  then show ?thesis
  proof cases
    case 1
    consider "dedupKey a' b' = writeIDs a' @ CHR ''|'' # writeIDs b'"
      | "dedupKey a' b' = writeIDs b' @ CHR ''|'' # writeIDs a'"
      using dedupKey_cases [of a' b'] by blast
    then show ?thesis
    proof cases
      case 1
      with \<open>dedupKey a b = writeIDs a @ CHR ''|'' # writeIDs b\<close> assms
      have "writeIDs a @ CHR ''|'' # writeIDs b = writeIDs a' @ CHR ''|'' # writeIDs b'" by simp
      then show ?thesis using bar_split by blast
    next
      case 2
      with \<open>dedupKey a b = writeIDs a @ CHR ''|'' # writeIDs b\<close> assms
      have "writeIDs a @ CHR ''|'' # writeIDs b = writeIDs b' @ CHR ''|'' # writeIDs a'" by simp
      then show ?thesis using bar_split by blast
    qed
  next
    case 2
    consider "dedupKey a' b' = writeIDs a' @ CHR ''|'' # writeIDs b'"
      | "dedupKey a' b' = writeIDs b' @ CHR ''|'' # writeIDs a'"
      using dedupKey_cases [of a' b'] by blast
    then show ?thesis
    proof cases
      case 1
      with \<open>dedupKey a b = writeIDs b @ CHR ''|'' # writeIDs a\<close> assms
      have "writeIDs b @ CHR ''|'' # writeIDs a = writeIDs a' @ CHR ''|'' # writeIDs b'" by simp
      then show ?thesis using bar_split by blast
    next
      case 2
      with \<open>dedupKey a b = writeIDs b @ CHR ''|'' # writeIDs a\<close> assms
      have "writeIDs b @ CHR ''|'' # writeIDs a = writeIDs b' @ CHR ''|'' # writeIDs a'" by simp
      then show ?thesis using bar_split by blast
    qed
  qed
qed

subsection \<open>Options of a position\<close>

lemma uniqueLoop_later: "0 < j \<Longrightarrow> insert l (set (uniqueLoop j l vs)) = insert l (set vs)"
proof (induction vs arbitrary: j l)
  case Nil
  then show ?case by simp
next
  case (Cons v vs)
  from Cons.IH [of "Suc j" v] Cons.IH [of "Suc j" l] Cons.prems show ?case
    by (cases "v = l") auto
qed

lemma uniqueLoop_set: "set (uniqueLoop 0 l vs) = set vs"
proof (cases vs)
  case Nil
  then show ?thesis by simp
next
  case (Cons v vs')
  then show ?thesis using uniqueLoop_later [of "Suc 0" v vs'] by simp
qed

lemma set_positionOption: "set (positionOption t w) = optionSet t w"
  by (simp add: positionOption_def optionSet_def uniqueLoop_set set_insort_key split: option.split)

subsection \<open>Emitting the product\<close>

lemma GetStr_in_range: "unat w < length (intToStr d) \<Longrightarrow> GetStr d w = Some (str d w)"
  by (simp add: GetStr_def str_def load_def)

lemma emitRow_eq:
  "unat wI < length (intToStr d) \<Longrightarrow> \<forall>wJ \<in> set js. unat wJ < length (intToStr d) \<Longrightarrow>
   emitRow d wI js res = Some (res @ map (\<lambda>wJ. pairKey (str d wI) (str d wJ)) js)"
  by (induction js arbitrary: res) (simp_all add: GetStr_in_range)

lemma emitProduct_eq:
  "\<forall>wI \<in> set a. unat wI < length (intToStr d) \<Longrightarrow> \<forall>wJ \<in> set b. unat wJ < length (intToStr d) \<Longrightarrow>
   emitProduct d a b res = Some (res @ prodList d a b)"
  by (induction a arbitrary: res) (simp_all add: emitRow_eq prodList_def)

lemma pairKey_commute: "pairKey s t = pairKey t s"
  by (auto simp: pairKey_def)

lemma set_prodList:
  "set (prodList d a b) = {pairKey (str d wI) (str d wJ) | wI wJ. wI \<in> set a \<and> wJ \<in> set b}"
  by (auto simp: prodList_def)

lemma set_prodList_commute: "set (prodList d a b) = set (prodList d b a)"
  unfolding set_prodList using pairKey_commute by blast

lemma set_prodList_key:
  "dedupKey a b = dedupKey a' b' \<Longrightarrow> set (prodList d a b) = set (prodList d a' b')"
  using dedupKey_inj [of a b a' b'] set_prodList_commute [of d a b] by auto

subsection \<open>The loops over position pairs\<close>

lemma loopJ_char:
  assumes "inDict d a" "\<forall>b \<in> set rest. inDict d b" "seenInv d seen res"
  shows "\<exists>seen' res'. loopJ d a rest (seen, res) = Some (seen', res') \<and> seenInv d seen' res'
           \<and> set res' = set res \<union> (\<Union>b \<in> set rest. set (prodList d a b))"
  using assms
proof (induction rest arbitrary: seen res)
  case Nil
  then show ?case by simp
next
  case (Cons b rest)
  show ?case
  proof (cases "dedupKey a b \<in> seen")
    case True
    with Cons.prems(3) have sub: "set (prodList d a b) \<subseteq> set res"
      by (simp add: seenInv_def)
    from Cons.IH [of seen res] Cons.prems obtain seen' res' where
      r: "loopJ d a rest (seen, res) = Some (seen', res')" "seenInv d seen' res'"
         "set res' = set res \<union> (\<Union>b \<in> set rest. set (prodList d a b))"
      by auto
    have "loopJ d a (b # rest) (seen, res) = Some (seen', res')"
      using True r(1) by simp
    moreover have "set res' = set res \<union> (\<Union>b \<in> set (b # rest). set (prodList d a b))"
      using r(3) sub by auto
    ultimately show ?thesis using r(2) by blast
  next
    case False
    have e: "emitProduct d a b res = Some (res @ prodList d a b)"
      using Cons.prems(1,2) by (simp add: emitProduct_eq inDict_def)
    have inv: "seenInv d (insert (dedupKey a b) seen) (res @ prodList d a b)"
      unfolding seenInv_def
    proof (intro allI impI)
      fix a' b'
      assume "dedupKey a' b' \<in> insert (dedupKey a b) seen"
      then consider "dedupKey a' b' = dedupKey a b" | "dedupKey a' b' \<in> seen" by auto
      then show "set (prodList d a' b') \<subseteq> set (res @ prodList d a b)"
      proof cases
        case 1
        then show ?thesis using set_prodList_key [of a' b' a b d] by simp
      next
        case 2
        with Cons.prems(3) have "set (prodList d a' b') \<subseteq> set res"
          by (simp add: seenInv_def)
        then show ?thesis by auto
      qed
    qed
    from Cons.IH [of "insert (dedupKey a b) seen" "res @ prodList d a b"] Cons.prems(1,2) inv
    obtain seen' res' where
      r: "loopJ d a rest (insert (dedupKey a b) seen, res @ prodList d a b) = Some (seen', res')"
         "seenInv d seen' res'"
         "set res' = set (res @ prodList d a b) \<union> (\<Union>b \<in> set rest. set (prodList d a b))"
      by auto
    have "loopJ d a (b # rest) (seen, res) = Some (seen', res')"
      using False e r(1) by simp
    moreover have "set res' = set res \<union> (\<Union>b \<in> set (b # rest). set (prodList d a b))"
      using r(3) by auto
    ultimately show ?thesis using r(2) by blast
  qed
qed

lemma loopI_char:
  assumes "\<forall>a \<in> set opts. inDict d a" "seenInv d seen res"
  shows "\<exists>seen' res'. loopI d opts (seen, res) = Some (seen', res') \<and> seenInv d seen' res'
           \<and> set res' = set res \<union> allKeys d opts"
  using assms
proof (induction opts arbitrary: seen res)
  case Nil
  then show ?case by simp
next
  case (Cons a rest)
  from loopJ_char [of d a rest seen res] Cons.prems obtain seen1 res1 where
    j: "loopJ d a rest (seen, res) = Some (seen1, res1)" "seenInv d seen1 res1"
       "set res1 = set res \<union> (\<Union>b \<in> set rest. set (prodList d a b))"
    by auto
  from Cons.IH [of seen1 res1] Cons.prems(1) j(2) obtain seen' res' where
    i: "loopI d rest (seen1, res1) = Some (seen', res')" "seenInv d seen' res'"
       "set res' = set res1 \<union> allKeys d rest"
    by auto
  have "loopI d (a # rest) (seen, res) = Some (seen', res')"
    using j(1) i(1) by simp
  moreover have "set res' = set res \<union> allKeys d (a # rest)"
    using j(3) i(3) by auto
  ultimately show ?case using i(2) by blast
qed

lemma build_char:
  assumes "\<forall>w \<in> set parts. \<forall>v \<in> optionSet t w. unat v < length (intToStr d)"
  shows "\<exists>results. buildExpandedPairMappings parts t d = Some results
           \<and> set results = allKeys d (positionOptions t parts)"
proof -
  have "\<forall>a \<in> set (positionOptions t parts). inDict d a"
    using assms by (auto simp: positionOptions_def inDict_def set_positionOption)
  moreover have "seenInv d {} []" by (simp add: seenInv_def)
  ultimately obtain seen' res' where
    "loopI d (positionOptions t parts) ({}, []) = Some (seen', res')"
    "set res' = set [] \<union> allKeys d (positionOptions t parts)"
    using loopI_char [of "positionOptions t parts" d "{}" "[]"] by blast
  then show ?thesis by (simp add: buildExpandedPairMappings_def)
qed

lemma allKeys_index:
  "allKeys d opts = {k. \<exists>i j. i < j \<and> j < length opts \<and> k \<in> set (prodList d (opts ! i) (opts ! j))}"
proof (induction opts)
  case Nil
  then show ?case by simp
next
  case (Cons a rest)
  show ?case
  proof (rule set_eqI, rule iffI)
    fix k
    assume "k \<in> allKeys d (a # rest)"
    then consider b where "b \<in> set rest" "k \<in> set (prodList d a b)" | "k \<in> allKeys d rest"
      by auto
    then show "k \<in> {k. \<exists>i j. i < j \<and> j < length (a # rest) \<and> k \<in> set (prodList d ((a # rest) ! i) ((a # rest) ! j))}"
    proof cases
      case 1
      then obtain j where "j < length rest" "rest ! j = b" by (auto simp: in_set_conv_nth)
      with 1(2) have "0 < Suc j \<and> Suc j < length (a # rest)
           \<and> k \<in> set (prodList d ((a # rest) ! 0) ((a # rest) ! Suc j))" by simp
      then show ?thesis by blast
    next
      case 2
      with Cons.IH obtain i j where "i < j" "j < length rest" "k \<in> set (prodList d (rest ! i) (rest ! j))"
        by auto
      then have "Suc i < Suc j \<and> Suc j < length (a # rest)
           \<and> k \<in> set (prodList d ((a # rest) ! Suc i) ((a # rest) ! Suc j))" by simp
      then show ?thesis by blast
    qed
  next
    fix k
    assume "k \<in> {k. \<exists>i j. i < j \<and> j < length (a # rest) \<and> k \<in> set (prodList d ((a # rest) ! i) ((a # rest) ! j))}"
    then obtain i j where ij: "i < j" "j < length (a # rest)"
      "k \<in> set (prodList d ((a # rest) ! i) ((a # rest) ! j))" by auto
    from ij(1) obtain j' where j': "j = Suc j'" by (cases j) auto
    show "k \<in> allKeys d (a # rest)"
    proof (cases i)
      case 0
      with ij j' have "rest ! j' \<in> set rest" "k \<in> set (prodList d a (rest ! j'))" by simp_all
      then show ?thesis by auto
    next
      case (Suc i')
      with ij j' have "i' < j'" "j' < length rest" "k \<in> set (prodList d (rest ! i') (rest ! j'))"
        by simp_all
      then have "k \<in> allKeys d rest" using Cons.IH by blast
      then show ?thesis by simp
    qed
  qed
qed

lemma pairKey_min_max: "pairKey s t = min s t @ ''_'' @ max s t"
  by (auto simp: pairKey_def min_def max_def)

lemma build_keys:
  assumes "\<forall>w \<in> set parts. \<forall>v \<in> optionSet t w. unat v < length (intToStr d)"
  shows "\<exists>results. buildExpandedPairMappings parts t d = Some results
     \<and> set results = {pairKey (str d wI) (str d wJ) | i j wI wJ.
           i < j \<and> j < length parts \<and> wI \<in> optionSet t (parts ! i) \<and> wJ \<in> optionSet t (parts ! j)}"
proof -
  from build_char [OF assms] obtain results where
    r: "buildExpandedPairMappings parts t d = Some results"
       "set results = allKeys d (positionOptions t parts)" by blast
  have "allKeys d (positionOptions t parts) = {pairKey (str d wI) (str d wJ) | i j wI wJ.
           i < j \<and> j < length parts \<and> wI \<in> optionSet t (parts ! i) \<and> wJ \<in> optionSet t (parts ! j)}"
    (is "?L = ?R")
  proof (rule set_eqI, rule iffI)
    fix k assume "k \<in> ?L"
    then obtain i j where ij: "i < j" "j < length parts"
      "k \<in> set (prodList d (positionOptions t parts ! i) (positionOptions t parts ! j))"
      by (auto simp: allKeys_index positionOptions_def)
    then have "k \<in> set (prodList d (positionOption t (parts ! i)) (positionOption t (parts ! j)))"
      by (simp add: positionOptions_def)
    then obtain wI wJ where "k = pairKey (str d wI) (str d wJ)"
      "wI \<in> optionSet t (parts ! i)" "wJ \<in> optionSet t (parts ! j)"
      by (auto simp: set_prodList set_positionOption)
    with ij(1,2) show "k \<in> ?R" by blast
  next
    fix k assume "k \<in> ?R"
    then obtain i j wI wJ where ij: "i < j" "j < length parts"
      and w: "wI \<in> optionSet t (parts ! i)" "wJ \<in> optionSet t (parts ! j)"
      and k: "k = pairKey (str d wI) (str d wJ)" by blast
    have "k \<in> set (prodList d (positionOption t (parts ! i)) (positionOption t (parts ! j)))"
      using w k by (auto simp: set_prodList set_positionOption)
    then have "k \<in> set (prodList d (positionOptions t parts ! i) (positionOptions t parts ! j))"
      using ij by (simp add: positionOptions_def)
    then have "\<exists>i j. i < j \<and> j < length (positionOptions t parts)
        \<and> k \<in> set (prodList d (positionOptions t parts ! i) (positionOptions t parts ! j))"
      using ij by (intro exI [of _ i] exI [of _ j]) (simp add: positionOptions_def)
    then show "k \<in> ?L"
      unfolding allKeys_index by blast
  qed
  with r show ?thesis by simp
qed

subsection \<open>Enlarging the equivalence table\<close>

lemma enlargesD:
  "enlarges wm wm' \<Longrightarrow> wm w = Some ms \<Longrightarrow> \<exists>ms'. wm' w = Some ms' \<and> set ms \<subseteq> set ms'"
  unfolding enlarges_def
  by (erule allE [of _ w]) (simp split: option.splits)

lemma closure_mono: "enlarges wm wm' \<Longrightarrow> closure wm B \<subseteq> closure wm' B"
proof
  fix x assume e: "enlarges wm wm'" and "x \<in> closure wm B"
  then obtain w ms where w: "w \<in> set B" "wm w = Some ms" "x \<in> set ms"
    by (auto simp: closure_def split: option.splits)
  from enlargesD [OF e w(2)] obtain ms' where "wm' w = Some ms'" "set ms \<subseteq> set ms'" by blast
  with w show "x \<in> closure wm' B"
    by (auto simp: closure_def intro!: bexI [of _ w])
qed

lemma mismatch_code_mono:
  assumes "enlarges wm wm'" "n \<le> n'"
  shows "mismatch_code wm' n' A B \<le> mismatch_code wm n A B"
proof -
  have "{a \<in> set A. \<not> stampedBy wm' n' B a} \<subseteq> {a \<in> set A. \<not> stampedBy wm n B a}"
    using closure_mono [OF assms(1), of B] assms(2) by (auto simp: stampedBy_def)
  then have "card {a \<in> set A. \<not> stampedBy wm' n' B a} \<le> card {a \<in> set A. \<not> stampedBy wm n B a}"
    by (intro card_mono) simp_all
  then show ?thesis by (simp add: mismatch_code_def length_filter_remdups)
qed

lemma mismatch_code_nonneg: "0 \<le> mismatch_code wm n A B"
  by (simp add: mismatch_code_def)

lemma accept_code_mono:
  assumes "enlarges wm wm'" "n \<le> n'" "accept_code wm n A B"
  shows "accept_code wm' n' A B"
  using mismatch_code_mono [OF assms(1,2), of A B] mismatch_code_mono [OF assms(1,2), of B A]
    mismatch_code_nonneg [of wm' n' A B] mismatch_code_nonneg [of wm' n' B A] assms(3)
  by (auto simp: accept_code_def Let_def R1_def R2_def R3_def)

lemma optionSet_tradeoutsOf_mono:
  assumes "enlarges wm wm'" "unat w < length (intToStr d)"
  shows "optionSet (tradeoutsOf d wm) w \<subseteq> optionSet (tradeoutsOf d wm') w"
proof (cases "wm w")
  case None
  then show ?thesis by (auto simp: optionSet_def tradeoutsOf_def)
next
  case (Some ms)
  from enlargesD [OF assms(1) Some] obtain ms' where "wm' w = Some ms'" "set ms \<subseteq> set ms'" by blast
  with Some assms(2) show ?thesis
    by (auto simp: optionSet_def tradeoutsOf_def GetStr_in_range)
qed

lemma optionSet_tradeoutsOf_range:
  assumes "unat w < length (intToStr d)"
    and "\<forall>k ms. wm k = Some ms \<longrightarrow> (\<forall>m \<in> set ms. unat m < length (intToStr d))"
    and "v \<in> optionSet (tradeoutsOf d wm) w"
  shows "unat v < length (intToStr d)"
  using assms by (auto simp: optionSet_def tradeoutsOf_def split: option.splits if_splits)

section \<open>The table conversion of preprocessData\<close>

lemma extends_refl: "extends d d"
  by (simp add: extends_def)

lemma extends_trans: "extends d d1 \<Longrightarrow> extends d1 d2 \<Longrightarrow> extends d d2"
  by (auto simp: extends_def)

lemma extends_length: "extends d d' \<Longrightarrow> length (intToStr d) \<le> length (intToStr d')"
  by (auto simp: extends_def)

lemma extends_nth:
  "extends d d' \<Longrightarrow> i < length (intToStr d) \<Longrightarrow> intToStr d' ! i = intToStr d ! i"
  by (auto simp: extends_def nth_append)

lemma GetID_props:
  assumes "dictOK d" "GetID d s = (i, d')" "length (intToStr d') \<le> 2 ^ 32"
  shows "dictOK d' \<and> extends d d' \<and> unat i < length (intToStr d') \<and> intToStr d' ! unat i = s"
proof (cases "strToInt d s")
  case (Some j)
  with assms(2) have "i = j" "d' = d" by (simp_all add: GetID_def)
  with assms(1) Some show ?thesis by (auto simp: dictOK_def extends_refl)
next
  case None
  let ?n = "length (intToStr d)"
  from None assms(2) have i: "i = of_nat ?n"
    and d': "d' = d\<lparr>intToStr := intToStr d @ [s], strToInt := (strToInt d)(s \<mapsto> of_nat ?n)\<rparr>"
    by (auto simp: GetID_def Let_def)
  from d' assms(3) have "?n < 2 ^ 32" by simp
  then have u: "unat (of_nat ?n :: u32) = ?n" by (simp add: unat_of_nat)
  have ok: "dictOK d'"
    unfolding dictOK_def
  proof (intro allI impI)
    fix t j assume a: "strToInt d' t = Some j"
    show "unat j < length (intToStr d') \<and> intToStr d' ! unat j = t"
    proof (cases "t = s")
      case True
      with a d' have "j = of_nat ?n" by simp
      with u d' True show ?thesis by simp
    next
      case False
      with a d' have "strToInt d t = Some j" by simp
      with assms(1) have "unat j < ?n" "intToStr d ! unat j = t" by (auto simp: dictOK_def)
      with d' show ?thesis by (simp add: nth_append)
    qed
  qed
  have "extends d d'" using d' by (simp add: extends_def)
  moreover have "unat i < length (intToStr d')" "intToStr d' ! unat i = s"
    using i u d' by simp_all
  ultimately show ?thesis using ok by blast
qed

lemma GetID_extends: "GetID d s = (i, d') \<Longrightarrow> extends d d'"
  by (auto simp: GetID_def Let_def extends_def split: option.splits)

lemma matchIDsOf_extends: "matchIDsOf ms d = (ids, d') \<Longrightarrow> extends d d'"
proof (induction ms arbitrary: d ids d')
  case Nil
  then show ?case by (simp add: extends_refl)
next
  case (Cons m ms)
  obtain i d1 where g: "GetID d m = (i, d1)" by (cases "GetID d m")
  obtain js d2 where r: "matchIDsOf ms d1 = (js, d2)" by (cases "matchIDsOf ms d1")
  from Cons.prems g r have "d' = d2" by simp
  with GetID_extends [OF g] Cons.IH [OF r] show ?case by (auto intro: extends_trans)
qed

lemma matchIDsOf_props:
  assumes "dictOK d" "matchIDsOf ms d = (ids, d')" "length (intToStr d') \<le> 2 ^ 32"
  shows "dictOK d' \<and> extends d d'"
  using assms
proof (induction ms arbitrary: d ids)
  case Nil
  then show ?case by (simp add: extends_refl)
next
  case (Cons m ms)
  obtain i d1 where g: "GetID d m = (i, d1)" by (cases "GetID d m")
  obtain js d2 where r: "matchIDsOf ms d1 = (js, d2)" by (cases "matchIDsOf ms d1")
  from Cons.prems(2) g r have e: "d' = d2" by simp
  have "length (intToStr d1) \<le> 2 ^ 32"
    using extends_length [OF matchIDsOf_extends [OF r]] Cons.prems(3) e by simp
  from GetID_props [OF Cons.prems(1) g this] have d1: "dictOK d1" "extends d d1" by simp_all
  from Cons.IH [OF d1(1)] r e Cons.prems(3) have "dictOK d' \<and> extends d1 d'" by simp
  with d1(2) show ?case by (auto intro: extends_trans)
qed

lemma convertWordToMatches_extends:
  "convertWordToMatches raw (d, w2m, t) = (d', w2m', t') \<Longrightarrow> extends d d'"
proof (induction raw arbitrary: d w2m t)
  case Nil
  then show ?case by (simp add: extends_refl)
next
  case (Cons kv raw)
  obtain k v where kv: "kv = (k, v)" by (cases kv)
  obtain kID d1 where g: "GetID d k = (kID, d1)" by (cases "GetID d k")
  obtain ids d2 where m: "matchIDsOf v d1 = (ids, d2)" by (cases "matchIDsOf v d1")
  from Cons.prems kv g m obtain w2 t2 where
    "convertWordToMatches raw (d2, w2, t2) = (d', w2m', t')" by (simp add: Let_def)
  from Cons.IH [OF this] GetID_extends [OF g] matchIDsOf_extends [OF m]
  show ?case by (auto intro: extends_trans)
qed

lemma tradeoutsOf_step:
  assumes "dictOK d" "\<forall>j ms. w2m j = Some ms \<longrightarrow> unat j < length (intToStr d)"
    and "extends d d2" "unat kID < length (intToStr d2)" "intToStr d2 ! unat kID = k"
  shows "(if length k \<noteq> 1 then (tradeoutsOf d w2m)(kID \<mapsto> ids) else (tradeoutsOf d w2m)(kID \<mapsto> [kID]))
           = tradeoutsOf d2 (w2m(kID \<mapsto> ids))"
proof
  fix j
  show "(if length k \<noteq> 1 then (tradeoutsOf d w2m)(kID \<mapsto> ids) else (tradeoutsOf d w2m)(kID \<mapsto> [kID])) j
           = tradeoutsOf d2 (w2m(kID \<mapsto> ids)) j"
  proof (cases "j = kID")
    case True
    then show ?thesis
      using assms(4,5) by (simp add: tradeoutsOf_def GetStr_def load_def)
  next
    case False
    show ?thesis
    proof (cases "w2m j")
      case None
      with False show ?thesis by (simp add: tradeoutsOf_def)
    next
      case (Some ms)
      with assms(2) have r: "unat j < length (intToStr d)" by blast
      then have "unat j < length (intToStr d2)" "intToStr d2 ! unat j = intToStr d ! unat j"
        using extends_length [OF assms(3)] extends_nth [OF assms(3) r] by simp_all
      with r Some False show ?thesis
        by (simp add: tradeoutsOf_def GetStr_def load_def)
    qed
  qed
qed

lemma convertWordToMatches_inv:
  assumes "tableInv (d, w2m, t)" "convertWordToMatches raw (d, w2m, t) = (d', w2m', t')"
    and "length (intToStr d') \<le> 2 ^ 32"
  shows "tableInv (d', w2m', t')"
  using assms
proof (induction raw arbitrary: d w2m t)
  case Nil
  then show ?case by simp
next
  case (Cons kv raw)
  obtain k v where kv: "kv = (k, v)" by (cases kv)
  obtain kID d1 where g: "GetID d k = (kID, d1)" by (cases "GetID d k")
  obtain ids d2 where m: "matchIDsOf v d1 = (ids, d2)" by (cases "matchIDsOf v d1")
  define t2 where "t2 = (if length k \<noteq> 1 then t(kID \<mapsto> ids) else t(kID \<mapsto> [kID]))"
  from Cons.prems(2) kv g m have rest:
    "convertWordToMatches raw (d2, w2m(kID \<mapsto> ids), t2) = (d', w2m', t')"
    by (simp add: Let_def t2_def)
  from Cons.prems(1) have ok: "dictOK d"
    and dom: "\<forall>j ms. w2m j = Some ms \<longrightarrow> unat j < length (intToStr d)"
    and t: "t = tradeoutsOf d w2m"
    by (simp_all add: tableInv_def)
  have l2: "length (intToStr d2) \<le> 2 ^ 32"
    using extends_length [OF convertWordToMatches_extends [OF rest]] Cons.prems(3) by simp
  have l1: "length (intToStr d1) \<le> 2 ^ 32"
    using extends_length [OF matchIDsOf_extends [OF m]] l2 by simp
  from GetID_props [OF ok g l1] have d1: "dictOK d1" "extends d d1"
    "unat kID < length (intToStr d1)" "intToStr d1 ! unat kID = k" by simp_all
  from matchIDsOf_props [OF d1(1) m l2] have d2: "dictOK d2" "extends d1 d2" by simp_all
  have e: "extends d d2" using d1(2) d2(2) by (rule extends_trans)
  have kr: "unat kID < length (intToStr d2)" "intToStr d2 ! unat kID = k"
    using extends_length [OF d2(2)] extends_nth [OF d2(2) d1(3)] d1(3,4) by simp_all
  have "t2 = tradeoutsOf d2 (w2m(kID \<mapsto> ids))"
    unfolding t2_def t using ok dom e kr by (rule tradeoutsOf_step)
  moreover have "\<forall>j ms. (w2m(kID \<mapsto> ids)) j = Some ms \<longrightarrow> unat j < length (intToStr d2)"
    using dom kr(1) extends_length [OF e] by (auto split: if_splits)
  ultimately have "tableInv (d2, w2m(kID \<mapsto> ids), t2)"
    using d2(1) by (simp add: tableInv_def)
  from Cons.IH [OF this rest Cons.prems(3)] show ?case .
qed

lemma preprocess_tradeouts:
  assumes "convertWordToMatches raw (NewDictionary, Map.empty, Map.empty) = (d, w2m, t)"
    and "length (intToStr d) \<le> 2 ^ 32"
  shows "t = tradeoutsOf d w2m"
proof -
  have "tableInv (NewDictionary, Map.empty, Map.empty)"
    by (auto simp: tableInv_def dictOK_def NewDictionary_def tradeoutsOf_def)
  from convertWordToMatches_inv [OF this assms] show ?thesis
    by (simp add: tableInv_def)
qed

section \<open>The worker\<close>

lemma exampleData_fields:
  "NameWords exampleData = [''a b'' \<mapsto> [0, 1], ''b a'' \<mapsto> [1, 0]]"
  "WordToMatches exampleData = [0 \<mapsto> [0], 1 \<mapsto> [1]]"
  "PairToNames exampleData = [''a_b'' \<mapsto> [''a b'', ''b a'']]"
  by (simp_all add: exampleData_def)

lemma exampleData_keys:
  "buildExpandedPairMappings [0, 1] (TradeoutSets exampleData) (Dict exampleData) = Some [''a_b'']"
  "buildExpandedPairMappings [1, 0] (TradeoutSets exampleData) (Dict exampleData) = Some [''a_b'']"
  by (simp_all add: exampleData_def buildExpandedPairMappings_def positionOptions_def
        positionOption_def GetStr_def load_def pairKey_def dedupKey_def writeIDs_def
        decimal.simps digitChar_def word_le_nat_alt)

lemma exampleData_first:
  "processName exampleData ''a b'' (newWorker 2) =
     Some \<lparr>matchesBuffer = [13, 13], currentGen = 12,
           seenMatches = {matchString ''a b'' ''b a''},
           written = [matchString ''a b'' ''b a'' @ newline]\<rparr>"
  by (simp add: newWorker_def processName_def lookupWords_def exampleData_fields exampleData_keys
       processOther_def validateCall_def validateOptimized_def store_def load_def thresholds_def
       numeral_2_eq_2 Let_def)

lemma exampleData_second:
  "processName exampleData ''b a''
      \<lparr>matchesBuffer = [13, 13], currentGen = 12,
           seenMatches = {matchString ''a b'' ''b a''},
           written = [matchString ''a b'' ''b a'' @ newline]\<rparr> =
     Some \<lparr>matchesBuffer = [15, 15], currentGen = 14,
           seenMatches = {matchString ''a b'' ''b a''},
           written = [matchString ''a b'' ''b a'' @ newline, matchString ''a b'' ''b a'' @ newline]\<rparr>"
  by (simp add: processName_def lookupWords_def exampleData_fields exampleData_keys
       processOther_def validateCall_def validateOptimized_def store_def load_def thresholds_def
       Let_def)

subsection \<open>Validator calls of a worker\<close>

lemma validateCall_eq:
  "validateCall wm a b (buf, g) =
     Some (thresholds (int (length a)) (int (length b))
             (unstamped (stamp_spec (closure wm b) (g + 2) buf) (g + 2) a)
             (unstamped (stamp_spec (closure wm a) (g + 2 + 1) (stamp_spec (closure wm b) (g + 2) buf))
                (g + 2 + 1) b),
           stamp_spec (closure wm a) (g + 2 + 1) (stamp_spec (closure wm b) (g + 2) buf),
           g + 2)"
  by (simp add: validateCall_def validateOptimized_eq Let_def)

lemma validateCall_Some:
  "\<exists>ok. validateCall wm a b (buf, g) =
     Some (ok, stamp_spec (closure wm a) (g + 2 + 1) (stamp_spec (closure wm b) (g + 2) buf), g + 2)"
  by (simp add: validateCall_eq)

lemma runCalls_append:
  "runCalls wm (cs @ cs') st =
     (case runCalls wm cs st of None \<Rightarrow> None | Some st' \<Rightarrow> runCalls wm cs' st')"
proof (induction cs arbitrary: st)
  case Nil
  then show ?case by simp
next
  case (Cons c cs)
  obtain a b where c: "c = (a, b)" by (cases c)
  obtain buf g where st: "st = (buf, g)" by (cases st)
  from validateCall_Some [of wm a b buf g] obtain ok st' where
    "validateCall wm a b (buf, g) = Some (ok, st')" by blast
  then show ?case using Cons.IH [of st'] c st by simp
qed

lemma unat_gen: "n < 2 ^ 64 \<Longrightarrow> unat (of_nat n :: u64) = n"
  by (simp add: unat_of_nat)

lemma bufInv_step:
  assumes "bufInv k buf" "2 * k + 13 < 2 ^ 64"
  shows "bufInv (Suc k)
           (stamp_spec S' (of_nat (10 + 2 * k) + 2 + 1) (stamp_spec S (of_nat (10 + 2 * k) + 2) buf))"
proof -
  have g1: "of_nat (10 + 2 * k) + 2 = (of_nat (12 + 2 * k) :: u64)" by simp
  have g2: "of_nat (10 + 2 * k) + 2 + 1 = (of_nat (13 + 2 * k) :: u64)" by simp
  have u1: "unat (of_nat (12 + 2 * k) :: u64) = 12 + 2 * k"
    using assms(2) by (intro unat_gen) simp
  have u2: "unat (of_nat (13 + 2 * k) :: u64) = 13 + 2 * k"
    using assms(2) by (intro unat_gen) simp
  have "set (stamp_spec S' (of_nat (13 + 2 * k)) (stamp_spec S (of_nat (12 + 2 * k)) buf))
          \<subseteq> insert (of_nat (13 + 2 * k)) (insert (of_nat (12 + 2 * k)) (set buf))"
    using set_stamp_spec [of S' "of_nat (13 + 2 * k)" "stamp_spec S (of_nat (12 + 2 * k)) buf"]
      set_stamp_spec [of S "of_nat (12 + 2 * k)" buf] by blast
  then show ?thesis
    unfolding g1 g2 bufInv_def using assms(1) u1 u2
    by (fastforce simp: bufInv_def)
qed

lemma runCalls_inv:
  assumes "bufInv k buf" "2 * (k + length cs) + 11 < 2 ^ 64"
  shows "\<exists>buf'. runCalls wm cs (buf, of_nat (10 + 2 * k))
             = Some (buf', of_nat (10 + 2 * (k + length cs)))
          \<and> bufInv (k + length cs) buf' \<and> length buf' = length buf"
  using assms
proof (induction cs arbitrary: k buf)
  case Nil
  then show ?case by simp
next
  case (Cons c cs)
  obtain a b where c: "c = (a, b)" by (cases c)
  let ?g = "of_nat (10 + 2 * k) :: u64"
  let ?buf1 = "stamp_spec (closure wm a) (?g + 2 + 1) (stamp_spec (closure wm b) (?g + 2) buf)"
  from validateCall_Some [of wm a b buf ?g] obtain ok where
    v: "validateCall wm a b (buf, ?g) = Some (ok, ?buf1, ?g + 2)" by blast
  have inv1: "bufInv (Suc k) ?buf1"
    using Cons.prems by (intro bufInv_step) simp_all
  have g': "?g + 2 = of_nat (10 + 2 * Suc k)" by simp
  from Cons.IH [of "Suc k" ?buf1] inv1 Cons.prems(2) obtain buf' where
    r: "runCalls wm cs (?buf1, of_nat (10 + 2 * Suc k)) = Some (buf', of_nat (10 + 2 * (Suc k + length cs)))"
       "bufInv (Suc k + length cs) buf'" "length buf' = length ?buf1"
    by auto
  have "runCalls wm (c # cs) (buf, ?g) = Some (buf', of_nat (10 + 2 * (k + length (c # cs))))"
    using v r(1) c unfolding g' by simp
  then show ?case using r(2,3) by (simp add: length_stamp_spec)
qed

lemma bufInv_zero: "bufInv 0 (replicate n 0)"
  by (simp add: bufInv_def)

lemma bufInv_fresh:
  assumes "bufInv k buf" "2 * k + 13 < 2 ^ 64"
  shows "(of_nat (10 + 2 * k) + 2 :: u64) \<notin> set buf"
    and "(of_nat (10 + 2 * k) + 2 + 1 :: u64) \<notin> set buf"
proof -
  have g1: "of_nat (10 + 2 * k) + 2 = (of_nat (12 + 2 * k) :: u64)" by simp
  have g2: "of_nat (10 + 2 * k) + 2 + 1 = (of_nat (13 + 2 * k) :: u64)" by simp
  have u1: "unat (of_nat (12 + 2 * k) :: u64) = 12 + 2 * k"
    using assms(2) by (intro unat_gen) simp
  have u2: "unat (of_nat (13 + 2 * k) :: u64) = 13 + 2 * k"
    using assms(2) by (intro unat_gen) simp
  show "(of_nat (10 + 2 * k) + 2 :: u64) \<notin> set buf"
    unfolding g1 using assms(1) u1 by (fastforce simp: bufInv_def)
  show "(of_nat (10 + 2 * k) + 2 + 1 :: u64) \<notin> set buf"
    unfolding g2 using assms(1) u2 by (fastforce simp: bufInv_def)
qed

lemma stamp_fresh_iff:
  assumes "g \<notin> set buf" "x < length buf"
  shows "stamp_spec S g buf ! x = g \<longleftrightarrow> x \<in> unat ` S"
proof -
  have "buf ! x \<noteq> g" using assms by (metis nth_mem)
  then show ?thesis using assms(2) by (simp add: nth_stamp_spec)
qed

subsection \<open>The worker's loops make validator calls\<close>

lemma processOther_calls:
  assumes "processOther data name other w = Some w'"
  shows "\<exists>cs. runCalls (WordToMatches data) cs (matchesBuffer w, currentGen w)
           = Some (matchesBuffer w', currentGen w')"
proof (cases "other = name")
  case True
  with assms have "w' = w" by (simp add: processOther_def)
  then have "runCalls (WordToMatches data) [] (matchesBuffer w, currentGen w)
           = Some (matchesBuffer w', currentGen w')" by simp
  then show ?thesis by blast
next
  case False
  define n1 where "n1 = (if name > other then other else name)"
  define n2 where "n2 = (if name > other then name else other)"
  define ids1 where "ids1 = lookupWords (NameWords data) n1"
  define ids2 where "ids2 = lookupWords (NameWords data) n2"
  from validateCall_Some [of "WordToMatches data" ids1 ids2 "matchesBuffer w" "currentGen w"]
  obtain ok buf' gen' where
    v: "validateCall (WordToMatches data) ids1 ids2 (matchesBuffer w, currentGen w) = Some (ok, buf', gen')"
    by blast
  have "matchesBuffer w' = buf' \<and> currentGen w' = gen'"
    using assms False v
    by (auto simp: processOther_def Let_def n1_def n2_def ids1_def ids2_def split: if_splits)
  then have "runCalls (WordToMatches data) [(ids1, ids2)] (matchesBuffer w, currentGen w)
           = Some (matchesBuffer w', currentGen w')"
    using v by simp
  then show ?thesis by blast
qed

lemma calls_trans:
  assumes "\<exists>cs. runCalls wm cs (b0, g0) = Some (b1, g1)"
    and "\<exists>cs. runCalls wm cs (b1, g1) = Some (b2, g2)"
  shows "\<exists>cs. runCalls wm cs (b0, g0) = Some (b2, g2)"
proof -
  from assms obtain cs cs' where "runCalls wm cs (b0, g0) = Some (b1, g1)"
    "runCalls wm cs' (b1, g1) = Some (b2, g2)" by blast
  then have "runCalls wm (cs @ cs') (b0, g0) = Some (b2, g2)"
    by (simp add: runCalls_append)
  then show ?thesis by blast
qed

lemma calls_refl: "\<exists>cs. runCalls wm cs (b, g) = Some (b, g)"
proof -
  have "runCalls wm [] (b, g) = Some (b, g)" by simp
  then show ?thesis by blast
qed

lemma loopOthers_calls:
  "loopOthers data name others w = Some w' \<Longrightarrow>
   \<exists>cs. runCalls (WordToMatches data) cs (matchesBuffer w, currentGen w)
           = Some (matchesBuffer w', currentGen w')"
proof (induction others arbitrary: w)
  case Nil
  then show ?case using calls_refl by simp
next
  case (Cons other others)
  from Cons.prems obtain w1 where w1: "processOther data name other w = Some w1"
    "loopOthers data name others w1 = Some w'" by (auto split: option.splits)
  from processOther_calls [OF w1(1)] Cons.IH [OF w1(2)] show ?case by (rule calls_trans)
qed

lemma loopPairs_calls:
  "loopPairs data name pairs w = Some w' \<Longrightarrow>
   \<exists>cs. runCalls (WordToMatches data) cs (matchesBuffer w, currentGen w)
           = Some (matchesBuffer w', currentGen w')"
proof (induction pairs arbitrary: w)
  case Nil
  then show ?case using calls_refl by simp
next
  case (Cons p pairs)
  show ?case
  proof (cases "PairToNames data p")
    case None
    with Cons.prems have "loopPairs data name pairs w = Some w'" by simp
    then show ?thesis by (rule Cons.IH)
  next
    case (Some others)
    with Cons.prems obtain w1 where w1: "loopOthers data name others w = Some w1"
      "loopPairs data name pairs w1 = Some w'" by (auto split: option.splits)
    from loopOthers_calls [OF w1(1)] Cons.IH [OF w1(2)] show ?thesis by (rule calls_trans)
  qed
qed

lemma processName_calls:
  assumes "processName data name w = Some w'"
  shows "\<exists>cs. runCalls (WordToMatches data) cs (matchesBuffer w, currentGen w)
           = Some (matchesBuffer w', currentGen w')"
proof (cases "length (lookupWords (NameWords data) name) < 2")
  case True
  with assms have "w' = w" by (simp add: processName_def)
  then show ?thesis using calls_refl by simp
next
  case False
  with assms obtain pairs where
    "loopPairs data name pairs (w\<lparr>seenMatches := {}\<rparr>) = Some w'"
    by (auto simp: processName_def Let_def split: option.splits)
  from loopPairs_calls [OF this] show ?thesis by simp
qed

lemma loopJobs_calls:
  "loopJobs data jobs w = Some w' \<Longrightarrow>
   \<exists>cs. runCalls (WordToMatches data) cs (matchesBuffer w, currentGen w)
           = Some (matchesBuffer w', currentGen w')"
proof (induction jobs arbitrary: w)
  case Nil
  then show ?case using calls_refl by simp
next
  case (Cons name jobs)
  from Cons.prems obtain w1 where w1: "processName data name w = Some w1"
    "loopJobs data jobs w1 = Some w'" by (auto split: option.splits)
  from processName_calls [OF w1(1)] Cons.IH [OF w1(2)] show ?case by (rule calls_trans)
qed

subsection \<open>Lines of the output\<close>

lemma processOther_written:
  assumes "processOther data name other w = Some w'"
  shows "written w' = written w \<or> (\<exists>line. goodLine line \<and> written w' = written w @ [line])"
proof (cases "other = name")
  case True
  with assms show ?thesis by (simp add: processOther_def)
next
  case False
  define n1 where "n1 = (if name > other then other else name)"
  define n2 where "n2 = (if name > other then name else other)"
  have lt: "n1 < n2" using False by (auto simp: n1_def n2_def)
  then have good: "goodLine (matchString n1 n2 @ newline)"
    unfolding goodLine_def by blast
  define ids1 where "ids1 = lookupWords (NameWords data) n1"
  define ids2 where "ids2 = lookupWords (NameWords data) n2"
  from validateCall_Some [of "WordToMatches data" ids1 ids2 "matchesBuffer w" "currentGen w"]
  obtain ok buf' gen' where
    v: "validateCall (WordToMatches data) ids1 ids2 (matchesBuffer w, currentGen w) = Some (ok, buf', gen')"
    by blast
  have "written w' = written w \<or> written w' = written w @ [matchString n1 n2 @ newline]"
    using assms False v
    by (auto simp: processOther_def Let_def n1_def n2_def ids1_def ids2_def split: if_splits)
  with good show ?thesis by blast
qed

lemma loopOthers_written:
  "loopOthers data name others w = Some w' \<Longrightarrow>
   \<exists>new. written w' = written w @ new \<and> (\<forall>line \<in> set new. goodLine line)"
proof (induction others arbitrary: w)
  case Nil
  then show ?case by simp
next
  case (Cons other others)
  from Cons.prems obtain w1 where w1: "processOther data name other w = Some w1"
    "loopOthers data name others w1 = Some w'" by (auto split: option.splits)
  from processOther_written [OF w1(1)] obtain new1 where
    n1: "written w1 = written w @ new1" "\<forall>line \<in> set new1. goodLine line" by auto
  from Cons.IH [OF w1(2)] obtain new2 where
    n2: "written w' = written w1 @ new2" "\<forall>line \<in> set new2. goodLine line" by auto
  have "written w' = written w @ (new1 @ new2) \<and> (\<forall>line \<in> set (new1 @ new2). goodLine line)"
    using n1 n2 by auto
  then show ?case by blast
qed

lemma loopPairs_written:
  "loopPairs data name pairs w = Some w' \<Longrightarrow>
   \<exists>new. written w' = written w @ new \<and> (\<forall>line \<in> set new. goodLine line)"
proof (induction pairs arbitrary: w)
  case Nil
  then show ?case by simp
next
  case (Cons p pairs)
  show ?case
  proof (cases "PairToNames data p")
    case None
    with Cons.prems have "loopPairs data name pairs w = Some w'" by simp
    then show ?thesis by (rule Cons.IH)
  next
    case (Some others)
    with Cons.prems obtain w1 where w1: "loopOthers data name others w = Some w1"
      "loopPairs data name pairs w1 = Some w'" by (auto split: option.splits)
    from loopOthers_written [OF w1(1)] obtain new1 where
      n1: "written w1 = written w @ new1" "\<forall>line \<in> set new1. goodLine line" by auto
    from Cons.IH [OF w1(2)] obtain new2 where
      n2: "written w' = written w1 @ new2" "\<forall>line \<in> set new2. goodLine line" by auto
    have "written w' = written w @ (new1 @ new2) \<and> (\<forall>line \<in> set (new1 @ new2). goodLine line)"
      using n1 n2 by auto
    then show ?thesis by blast
  qed
qed

lemma processName_written:
  assumes "processName data name w = Some w'"
  shows "\<exists>new. written w' = written w @ new \<and> (\<forall>line \<in> set new. goodLine line)"
proof (cases "length (lookupWords (NameWords data) name) < 2")
  case True
  with assms have "w' = w" by (simp add: processName_def)
  then show ?thesis by simp
next
  case False
  with assms obtain pairs where
    "loopPairs data name pairs (w\<lparr>seenMatches := {}\<rparr>) = Some w'"
    by (auto simp: processName_def Let_def split: option.splits)
  from loopPairs_written [OF this] show ?thesis by simp
qed

lemma loopJobs_written:
  "loopJobs data jobs w = Some w' \<Longrightarrow>
   \<exists>new. written w' = written w @ new \<and> (\<forall>line \<in> set new. goodLine line)"
proof (induction jobs arbitrary: w)
  case Nil
  then show ?case by simp
next
  case (Cons name jobs)
  from Cons.prems obtain w1 where w1: "processName data name w = Some w1"
    "loopJobs data jobs w1 = Some w'" by (auto split: option.splits)
  from processName_written [OF w1(1)] obtain new1 where
    n1: "written w1 = written w @ new1" "\<forall>line \<in> set new1. goodLine line" by auto
  from Cons.IH [OF w1(2)] obtain new2 where
    n2: "written w' = written w1 @ new2" "\<forall>line \<in> set new2. goodLine line" by auto
  have "written w' = written w @ (new1 @ new2) \<and> (\<forall>line \<in> set (new1 @ new2). goodLine line)"
    using n1 n2 by auto
  then show ?case by blast
qed

subsection \<open>No line twice for one name\<close>

lemma processOther_nameInv:
  assumes "processOther data name other w = Some w'" "nameInv base w"
  shows "nameInv base w'"
proof (cases "other = name")
  case True
  with assms show ?thesis by (simp add: processOther_def)
next
  case False
  define n1 where "n1 = (if name > other then other else name)"
  define n2 where "n2 = (if name > other then name else other)"
  define ids1 where "ids1 = lookupWords (NameWords data) n1"
  define ids2 where "ids2 = lookupWords (NameWords data) n2"
  define m where "m = matchString n1 n2"
  from validateCall_Some [of "WordToMatches data" ids1 ids2 "matchesBuffer w" "currentGen w"]
  obtain ok buf' gen' where
    v: "validateCall (WordToMatches data) ids1 ids2 (matchesBuffer w, currentGen w) = Some (ok, buf', gen')"
    by blast
  from assms(2) obtain new where
    new: "written w = base @ new" "distinct new" "set new = (\<lambda>s. s @ newline) ` seenMatches w"
    unfolding nameInv_def by blast
  consider "written w' = written w" "seenMatches w' = seenMatches w"
    | "m \<notin> seenMatches w" "written w' = written w @ [m @ newline]"
      "seenMatches w' = insert m (seenMatches w)"
    using assms(1) False v
    by (auto simp: processOther_def Let_def n1_def n2_def ids1_def ids2_def m_def split: if_splits)
  then show ?thesis
  proof cases
    case 1
    with new show ?thesis unfolding nameInv_def by auto
  next
    case 2
    have "m @ newline \<notin> set new"
      using 2(1) new(3) by auto
    then have "written w' = base @ (new @ [m @ newline]) \<and> distinct (new @ [m @ newline])
        \<and> set (new @ [m @ newline]) = (\<lambda>s. s @ newline) ` seenMatches w'"
      using 2 new by auto
    then show ?thesis unfolding nameInv_def by blast
  qed
qed

lemma loopOthers_nameInv:
  "loopOthers data name others w = Some w' \<Longrightarrow> nameInv base w \<Longrightarrow> nameInv base w'"
proof (induction others arbitrary: w)
  case Nil
  then show ?case by simp
next
  case (Cons other others)
  from Cons.prems(1) obtain w1 where w1: "processOther data name other w = Some w1"
    "loopOthers data name others w1 = Some w'" by (auto split: option.splits)
  from processOther_nameInv [OF w1(1) Cons.prems(2)] have "nameInv base w1" .
  with w1(2) show ?case by (rule Cons.IH)
qed

lemma loopPairs_nameInv:
  "loopPairs data name pairs w = Some w' \<Longrightarrow> nameInv base w \<Longrightarrow> nameInv base w'"
proof (induction pairs arbitrary: w)
  case Nil
  then show ?case by simp
next
  case (Cons p pairs)
  show ?case
  proof (cases "PairToNames data p")
    case None
    with Cons.prems(1) have "loopPairs data name pairs w = Some w'" by simp
    then show ?thesis using Cons.prems(2) by (rule Cons.IH)
  next
    case (Some others)
    with Cons.prems(1) obtain w1 where w1: "loopOthers data name others w = Some w1"
      "loopPairs data name pairs w1 = Some w'" by (auto split: option.splits)
    from loopOthers_nameInv [OF w1(1) Cons.prems(2)] have "nameInv base w1" .
    with w1(2) show ?thesis by (rule Cons.IH)
  qed
qed

lemma runCalls_empty_table:
  "runCalls Map.empty (replicate k c) (buf, g) = Some (buf, g + 2 * of_nat k)"
proof (induction k arbitrary: g)
  case 0
  then show ?case by simp
next
  case (Suc k)
  obtain a b where c: "c = (a, b)" by (cases c)
  have s: "stamp_from i {} g' xs = xs" for i g' and xs :: "u64 list"
    by (induction xs arbitrary: i) simp_all
  have "validateCall Map.empty a b (buf, g) = Some (thresholds (int (length a)) (int (length b))
             (unstamped buf (g + 2) a) (unstamped buf (g + 2 + 1) b), buf, g + 2)"
    by (simp add: validateCall_eq closure_def stamp_spec_def s)
  then show ?case using Suc [of "g + 2"] c by (simp add: algebra_simps)
qed

lemma distinct_count_list_le: "distinct xs \<Longrightarrow> count_list xs x \<le> 1"
  by (induction xs) auto

subsection \<open>The worker does not panic on well-formed data\<close>

lemma processOther_Some: "\<exists>w'. processOther data name other w = Some w'"
proof (cases "other = name")
  case True
  then show ?thesis by (simp add: processOther_def)
next
  case False
  define n1 where "n1 = (if name > other then other else name)"
  define n2 where "n2 = (if name > other then name else other)"
  from validateCall_Some [of "WordToMatches data" "lookupWords (NameWords data) n1"
      "lookupWords (NameWords data) n2" "matchesBuffer w" "currentGen w"]
  obtain ok buf' gen' where
    "validateCall (WordToMatches data) (lookupWords (NameWords data) n1)
       (lookupWords (NameWords data) n2) (matchesBuffer w, currentGen w) = Some (ok, buf', gen')"
    by blast
  then show ?thesis
    using False by (auto simp: processOther_def Let_def n1_def n2_def)
qed

lemma loopOthers_Some: "\<exists>w'. loopOthers data name others w = Some w'"
proof (induction others arbitrary: w)
  case Nil
  then show ?case by simp
next
  case (Cons other others)
  from processOther_Some [of data name other w] obtain w1 where
    "processOther data name other w = Some w1" by blast
  with Cons [of w1] show ?case by simp
qed

lemma loopPairs_Some: "\<exists>w'. loopPairs data name pairs w = Some w'"
proof (induction pairs arbitrary: w)
  case Nil
  then show ?case by simp
next
  case (Cons p pairs)
  show ?case
  proof (cases "PairToNames data p")
    case None
    with Cons [of w] show ?thesis by simp
  next
    case (Some others)
    from loopOthers_Some [of data name others w] obtain w1 where
      "loopOthers data name others w = Some w1" by blast
    with Some Cons [of w1] show ?thesis by simp
  qed
qed

lemma processName_Some:
  assumes "wellFormed data"
  shows "\<exists>w'. processName data name w = Some w'"
proof (cases "length (lookupWords (NameWords data) name) < 2")
  case True
  then show ?thesis by (simp add: processName_def)
next
  case False
  then obtain ids where ids: "NameWords data name = Some ids"
    by (cases "NameWords data name") (simp_all add: lookupWords_def)
  with assms have "\<forall>w \<in> set ids. \<forall>v \<in> optionSet (TradeoutSets data) w.
      unat v < length (intToStr (Dict data))"
    unfolding wellFormed_def by blast
  from build_char [OF this] obtain pairs where
    "buildExpandedPairMappings ids (TradeoutSets data) (Dict data) = Some pairs" by blast
  with False ids loopPairs_Some [of data name pairs "w\<lparr>seenMatches := {}\<rparr>"]
  show ?thesis by (simp add: processName_def lookupWords_def Let_def)
qed

lemma loopJobs_Some: "wellFormed data \<Longrightarrow> \<exists>w'. loopJobs data jobs w = Some w'"
proof (induction jobs arbitrary: w)
  case Nil
  then show ?case by simp
next
  case (Cons name jobs)
  from processName_Some [OF Cons.prems, of name w] obtain w1 where
    "processName data name w = Some w1" by blast
  with Cons.IH [OF Cons.prems, of w1] show ?case by simp
qed

lemma processBatch_Some: "wellFormed data \<Longrightarrow> \<exists>out. processBatch jobs data dictSize = Some out"
  using loopJobs_Some [of data jobs "newWorker dictSize"] by (auto simp: processBatch_def)

lemma exampleData_wellFormed: "wellFormed exampleData"
  by (auto simp: wellFormed_def exampleData_def optionSet_def split: if_splits)

subsection \<open>The lines a worker writes\<close>

lemma validateCall_fresh:
  assumes "bufInv k buf" "2 * k + 13 < 2 ^ 64"
  shows "\<exists>buf'. validateCall wm a b (buf, of_nat (10 + 2 * k))
           = Some (accept_code wm (length buf) a b, buf', of_nat (10 + 2 * Suc k))
         \<and> bufInv (Suc k) buf' \<and> length buf' = length buf"
proof -
  let ?g = "of_nat (10 + 2 * k) :: u64"
  let ?b = "stamp_spec (closure wm a) (?g + 2 + 1) (stamp_spec (closure wm b) (?g + 2) buf)"
  have f: "?g + 2 \<notin> set buf" "?g + 2 + 1 \<notin> set buf"
    using bufInv_fresh [OF assms] by simp_all
  have "validateOptimized a b wm buf (?g + 2) = Some (accept_code wm (length buf) a b, ?b)"
    using f by (rule validateOptimized_fresh)
  then have "validateCall wm a b (buf, ?g) = Some (accept_code wm (length buf) a b, ?b, ?g + 2)"
    by (simp add: validateCall_def Let_def)
  moreover have "?g + 2 = of_nat (10 + 2 * Suc k)" by simp
  moreover have "bufInv (Suc k) ?b" using assms by (rule bufInv_step)
  moreover have "length ?b = length buf" by (simp add: length_stamp_spec)
  ultimately show ?thesis by metis
qed

lemma processOther_same: "processOther data name name w = Some w"
  by (simp add: processOther_def)

lemma processOther_run:
  assumes "processOther data name other w = Some w'" "other \<noteq> name"
    and "workerInv n k w" "nameInv base w" "2 * k + 13 < 2 ^ 64"
  shows "workerInv n (Suc k) w' \<and> nameInv base w'
         \<and> set (written w') = set (written w) \<union> otherLines data n name other"
proof -
  obtain n1 n2 where c: "canon name other = (n1, n2)" by (cases "canon name other")
  then have c': "(if name > other then (other, name) else (name, other)) = (n1, n2)"
    by (simp add: canon_def)
  define ids1 where "ids1 = lookupWords (NameWords data) n1"
  define ids2 where "ids2 = lookupWords (NameWords data) n2"
  define ok where "ok = accept_code (WordToMatches data) n ids1 ids2"
  define m where "m = matchString n1 n2"
  from assms(3) have inv: "bufInv k (matchesBuffer w)" "currentGen w = of_nat (10 + 2 * k)"
    "length (matchesBuffer w) = n" by (simp_all add: workerInv_def)
  from validateCall_fresh [OF inv(1) assms(5), of "WordToMatches data" ids1 ids2] inv(3)
  obtain buf' where
    v: "validateCall (WordToMatches data) ids1 ids2 (matchesBuffer w, of_nat (10 + 2 * k))
          = Some (ok, buf', of_nat (10 + 2 * Suc k))"
    and b: "bufInv (Suc k) buf'" "length buf' = n"
    unfolding ok_def by auto
  have ol: "otherLines data n name other = (if ok then {m @ newline} else {})"
    using assms(2) c by (simp add: otherLines_def ok_def ids1_def ids2_def m_def)
  from assms(4) obtain new where
    new: "written w = base @ new" "set new = (\<lambda>s. s @ newline) ` seenMatches w"
    unfolding nameInv_def by blast
  have ni: "nameInv base w'"
    using assms(1,4) by (rule processOther_nameInv)
  consider (rejected) "\<not> ok" "w' = w\<lparr>matchesBuffer := buf', currentGen := of_nat (10 + 2 * Suc k)\<rparr>"
    | (known) "ok" "m \<in> seenMatches w"
        "w' = w\<lparr>matchesBuffer := buf', currentGen := of_nat (10 + 2 * Suc k)\<rparr>"
    | (fresh) "ok" "m \<notin> seenMatches w"
        "w' = w\<lparr>matchesBuffer := buf', currentGen := of_nat (10 + 2 * Suc k),
               seenMatches := insert m (seenMatches w), written := written w @ [m @ newline]\<rparr>"
    using assms(1,2) v c' inv(2)
    by (auto simp: processOther_def Let_def ids1_def ids2_def m_def split: if_splits)
  then show ?thesis
  proof cases
    case rejected
    with b ol ni show ?thesis by (simp add: workerInv_def)
  next
    case known
    have "m @ newline \<in> set (written w)" using known(2) new by auto
    with known b ol ni show ?thesis by (auto simp: workerInv_def)
  next
    case fresh
    with b ol ni show ?thesis by (auto simp: workerInv_def)
  qed
qed

lemma loopOthers_run:
  assumes "loopOthers data name others w = Some w'"
    and "workerInv n k w" "nameInv base w" "2 * (k + othersCount name others) + 11 < 2 ^ 64"
  shows "workerInv n (k + othersCount name others) w' \<and> nameInv base w'
         \<and> set (written w') = set (written w) \<union> othersLines data n name others"
  using assms
proof (induction others arbitrary: w k)
  case Nil
  then show ?case by (simp add: othersCount_def othersLines_def)
next
  case (Cons other others)
  from Cons.prems(1) obtain w1 where w1: "processOther data name other w = Some w1"
    "loopOthers data name others w1 = Some w'" by (auto split: option.splits)
  show ?case
  proof (cases "other = name")
    case True
    with w1(1) have "w1 = w" by (simp add: processOther_def)
    with Cons.IH [of w k] w1(2) Cons.prems(2,3,4) True show ?thesis
      by (simp add: othersCount_def othersLines_def otherLines_def)
  next
    case False
    then have cnt: "othersCount name (other # others) = Suc (othersCount name others)"
      by (simp add: othersCount_def)
    with Cons.prems(4) have bnd: "2 * k + 13 < 2 ^ 64" by simp
    from processOther_run [OF w1(1) False Cons.prems(2,3) bnd] have
      s1: "workerInv n (Suc k) w1" "nameInv base w1"
          "set (written w1) = set (written w) \<union> otherLines data n name other" by simp_all
    from Cons.IH [OF w1(2) s1(1,2)] Cons.prems(4) cnt have
      "workerInv n (Suc k + othersCount name others) w' \<and> nameInv base w'
         \<and> set (written w') = set (written w1) \<union> othersLines data n name others" by simp
    with s1(3) cnt show ?thesis by (auto simp: othersLines_def)
  qed
qed

lemma loopPairs_run:
  assumes "loopPairs data name pairs w = Some w'"
    and "workerInv n k w" "nameInv base w" "2 * (k + pairsCount data name pairs) + 11 < 2 ^ 64"
  shows "workerInv n (k + pairsCount data name pairs) w' \<and> nameInv base w'
         \<and> set (written w') = set (written w) \<union> pairsLines data n name pairs"
  using assms
proof (induction pairs arbitrary: w k)
  case Nil
  then show ?case by (simp add: pairsCount_def pairsLines_def)
next
  case (Cons p pairs)
  show ?case
  proof (cases "PairToNames data p")
    case None
    with Cons.prems(1) have l: "loopPairs data name pairs w = Some w'" by simp
    from None have "pairsCount data name (p # pairs) = pairsCount data name pairs"
      "pairsLines data n name (p # pairs) = pairsLines data n name pairs"
      by (simp_all add: pairsCount_def pairsLines_def)
    with Cons.IH [OF l Cons.prems(2,3)] Cons.prems(4) show ?thesis by simp
  next
    case (Some others)
    with Cons.prems(1) obtain w1 where w1: "loopOthers data name others w = Some w1"
      "loopPairs data name pairs w1 = Some w'" by (auto split: option.splits)
    from Some have cnt: "pairsCount data name (p # pairs)
        = othersCount name others + pairsCount data name pairs"
      and lns: "pairsLines data n name (p # pairs)
        = othersLines data n name others \<union> pairsLines data n name pairs"
      by (simp_all add: pairsCount_def pairsLines_def)
    have "2 * (k + othersCount name others) + 11 < 2 ^ 64"
      using Cons.prems(4) cnt by simp
    from loopOthers_run [OF w1(1) Cons.prems(2,3) this] have
      s1: "workerInv n (k + othersCount name others) w1" "nameInv base w1"
          "set (written w1) = set (written w) \<union> othersLines data n name others" by simp_all
    have "2 * (k + othersCount name others + pairsCount data name pairs) + 11 < 2 ^ 64"
      using Cons.prems(4) cnt by (simp add: add.assoc)
    from Cons.IH [OF w1(2) s1(1,2) this] have
      "workerInv n (k + othersCount name others + pairsCount data name pairs) w' \<and> nameInv base w'
         \<and> set (written w') = set (written w1) \<union> pairsLines data n name pairs" .
    with s1(3) cnt lns show ?thesis by (auto simp: add.assoc)
  qed
qed

lemma processName_run:
  assumes "processName data name w = Some w'"
    and "workerInv n k w" "2 * (k + nameCount data name) + 11 < 2 ^ 64"
  shows "workerInv n (k + nameCount data name) w'
         \<and> set (written w') = set (written w) \<union> nameLines data n name"
proof (cases "length (lookupWords (NameWords data) name) < 2")
  case True
  with assms(1) have "w' = w" by (simp add: processName_def)
  with True assms(2) show ?thesis by (simp add: nameCount_def nameLines_def)
next
  case False
  with assms(1) obtain pairs where
    b: "buildExpandedPairMappings (lookupWords (NameWords data) name) (TradeoutSets data) (Dict data)
          = Some pairs"
    and l: "loopPairs data name pairs (w\<lparr>seenMatches := {}\<rparr>) = Some w'"
    by (auto simp: processName_def Let_def split: option.splits)
  from False b have cnt: "nameCount data name = pairsCount data name pairs"
    and lns: "nameLines data n name = pairsLines data n name pairs"
    by (simp_all add: nameCount_def nameLines_def)
  have i: "workerInv n k (w\<lparr>seenMatches := {}\<rparr>)" using assms(2) by (simp add: workerInv_def)
  have ni: "nameInv (written w) (w\<lparr>seenMatches := {}\<rparr>)" by (simp add: nameInv_def)
  from loopPairs_run [OF l i ni] assms(3) cnt lns show ?thesis by simp
qed

lemma loopJobs_run:
  assumes "loopJobs data jobs w = Some w'"
    and "workerInv n k w" "2 * (k + jobsCount data jobs) + 11 < 2 ^ 64"
  shows "workerInv n (k + jobsCount data jobs) w'
         \<and> set (written w') = set (written w) \<union> outputLines data n jobs"
  using assms
proof (induction jobs arbitrary: w k)
  case Nil
  then show ?case by (simp add: jobsCount_def outputLines_def)
next
  case (Cons name jobs)
  from Cons.prems(1) obtain w1 where w1: "processName data name w = Some w1"
    "loopJobs data jobs w1 = Some w'" by (auto split: option.splits)
  have cnt: "jobsCount data (name # jobs) = nameCount data name + jobsCount data jobs"
    by (simp add: jobsCount_def)
  have lns: "outputLines data n (name # jobs) = nameLines data n name \<union> outputLines data n jobs"
    by (simp add: outputLines_def)
  have "2 * (k + nameCount data name) + 11 < 2 ^ 64" using Cons.prems(3) cnt by simp
  from processName_run [OF w1(1) Cons.prems(2) this] have
    s1: "workerInv n (k + nameCount data name) w1"
        "set (written w1) = set (written w) \<union> nameLines data n name" by simp_all
  have "2 * (k + nameCount data name + jobsCount data jobs) + 11 < 2 ^ 64"
    using Cons.prems(3) cnt by (simp add: add.assoc)
  from Cons.IH [OF w1(2) s1(1) this] have
    "workerInv n (k + nameCount data name + jobsCount data jobs) w'
       \<and> set (written w') = set (written w1) \<union> outputLines data n jobs" .
  with s1(2) cnt lns show ?case by (auto simp: add.assoc)
qed

lemma workerInv_new: "workerInv n 0 (newWorker n)"
  by (simp add: workerInv_def newWorker_def bufInv_zero)

lemma processBatch_output:
  assumes "processBatch jobs data n = Some out" "2 * jobsCount data jobs + 11 < 2 ^ 64"
  shows "set out = outputLines data n jobs"
proof -
  from assms(1) obtain w where w: "loopJobs data jobs (newWorker n) = Some w" "out = written w"
    by (auto simp: processBatch_def split: option.splits)
  from loopJobs_run [OF w(1) workerInv_new] assms(2) w(2) show ?thesis
    by (simp add: newWorker_def)
qed

subsection \<open>Monotonicity in the equivalence table\<close>

lemma build_mono:
  assumes "enlarges wm wm'"
    and "\<forall>w \<in> set parts. unat w < length (intToStr d)"
    and "\<forall>k ms. wm' k = Some ms \<longrightarrow> (\<forall>m \<in> set ms. unat m < length (intToStr d))"
  shows "\<exists>keys keys'. buildExpandedPairMappings parts (tradeoutsOf d wm) d = Some keys
            \<and> buildExpandedPairMappings parts (tradeoutsOf d wm') d = Some keys'
            \<and> set keys \<subseteq> set keys'"
proof -
  have r': "\<forall>w \<in> set parts. \<forall>v \<in> optionSet (tradeoutsOf d wm') w. unat v < length (intToStr d)"
    using assms(2,3) optionSet_tradeoutsOf_range [of _ d wm'] by blast
  have sub: "optionSet (tradeoutsOf d wm) w \<subseteq> optionSet (tradeoutsOf d wm') w" if "w \<in> set parts" for w
    using that assms(1,2) by (intro optionSet_tradeoutsOf_mono) auto
  have r: "\<forall>w \<in> set parts. \<forall>v \<in> optionSet (tradeoutsOf d wm) w. unat v < length (intToStr d)"
    using r' sub by blast
  from build_keys [OF r] obtain keys where
    k: "buildExpandedPairMappings parts (tradeoutsOf d wm) d = Some keys"
       "set keys = {pairKey (str d wI) (str d wJ) | i j wI wJ.
           i < j \<and> j < length parts \<and> wI \<in> optionSet (tradeoutsOf d wm) (parts ! i)
           \<and> wJ \<in> optionSet (tradeoutsOf d wm) (parts ! j)}" by blast
  from build_keys [OF r'] obtain keys' where
    k': "buildExpandedPairMappings parts (tradeoutsOf d wm') d = Some keys'"
       "set keys' = {pairKey (str d wI) (str d wJ) | i j wI wJ.
           i < j \<and> j < length parts \<and> wI \<in> optionSet (tradeoutsOf d wm') (parts ! i)
           \<and> wJ \<in> optionSet (tradeoutsOf d wm') (parts ! j)}" by blast
  have "set keys \<subseteq> set keys'"
  proof
    fix x assume "x \<in> set keys"
    with k(2) obtain i j wI wJ where ij: "i < j" "j < length parts"
      and w: "wI \<in> optionSet (tradeoutsOf d wm) (parts ! i)"
             "wJ \<in> optionSet (tradeoutsOf d wm) (parts ! j)"
      and x: "x = pairKey (str d wI) (str d wJ)" by blast
    have "wI \<in> optionSet (tradeoutsOf d wm') (parts ! i)" "wJ \<in> optionSet (tradeoutsOf d wm') (parts ! j)"
      using sub [of "parts ! i"] sub [of "parts ! j"] ij w by auto
    with ij x k'(2) show "x \<in> set keys'" by blast
  qed
  with k(1) k'(1) show ?thesis by blast
qed

lemma withTable_fields:
  "NameWords (withTable data wm) = NameWords data"
  "PairToNames (withTable data wm) = PairToNames data"
  "Dict (withTable data wm) = Dict data"
  "WordToMatches (withTable data wm) = wm"
  "TradeoutSets (withTable data wm) = tradeoutsOf (Dict data) wm"
  by (simp_all add: withTable_def)

lemma wellFormed_withTable:
  assumes "\<forall>name ids. NameWords data name = Some ids \<longrightarrow>
             (\<forall>w \<in> set ids. unat w < length (intToStr (Dict data)))"
    and "\<forall>k ms. wm k = Some ms \<longrightarrow> (\<forall>m \<in> set ms. unat m < length (intToStr (Dict data)))"
  shows "wellFormed (withTable data wm)"
  unfolding wellFormed_def withTable_fields
  using assms optionSet_tradeoutsOf_range [of _ "Dict data" wm] by blast

lemma enlarges_range:
  assumes "enlarges wm wm'"
    and "\<forall>k ms. wm' k = Some ms \<longrightarrow> (\<forall>m \<in> set ms. unat m < length xs)"
  shows "\<forall>k ms. wm k = Some ms \<longrightarrow> (\<forall>m \<in> set ms. unat m < length xs)"
proof (intro allI impI ballI)
  fix k ms m assume "wm k = Some ms" "m \<in> set ms"
  with enlargesD [OF assms(1), of k ms] obtain ms' where "wm' k = Some ms'" "m \<in> set ms'" by auto
  with assms(2) show "unat m < length xs" by blast
qed

lemma otherLines_mono:
  assumes "enlarges wm wm'" "n \<le> n'"
  shows "otherLines (withTable data wm) n name other \<subseteq> otherLines (withTable data wm') n' name other"
  using accept_code_mono [OF assms]
  by (auto simp: otherLines_def withTable_fields split: prod.splits if_splits)

lemma pairsLines_mono:
  assumes "enlarges wm wm'" "n \<le> n'" "set pairs \<subseteq> set pairs'"
  shows "pairsLines (withTable data wm) n name pairs \<subseteq> pairsLines (withTable data wm') n' name pairs'"
proof
  fix x assume "x \<in> pairsLines (withTable data wm) n name pairs"
  then obtain p others other where p: "p \<in> set pairs" "PairToNames data p = Some others"
    "other \<in> set others" "x \<in> otherLines (withTable data wm) n name other"
    by (auto simp: pairsLines_def othersLines_def withTable_fields split: option.splits)
  from p(4) otherLines_mono [OF assms(1,2), of data name other]
  have "x \<in> otherLines (withTable data wm') n' name other" by blast
  with p(3) have "x \<in> othersLines (withTable data wm') n' name others"
    unfolding othersLines_def by blast
  moreover have "p \<in> set pairs'" using p(1) assms(3) by blast
  ultimately show "x \<in> pairsLines (withTable data wm') n' name pairs'"
    unfolding pairsLines_def withTable_fields using p(2) by force
qed

lemma nameLines_mono:
  assumes "enlarges wm wm'" "n \<le> n'"
    and "\<forall>name ids. NameWords data name = Some ids \<longrightarrow>
             (\<forall>w \<in> set ids. unat w < length (intToStr (Dict data)))"
    and "\<forall>k ms. wm' k = Some ms \<longrightarrow> (\<forall>m \<in> set ms. unat m < length (intToStr (Dict data)))"
  shows "nameLines (withTable data wm) n name \<subseteq> nameLines (withTable data wm') n' name"
proof (cases "length (lookupWords (NameWords data) name) < 2")
  case True
  then show ?thesis by (simp add: nameLines_def withTable_fields)
next
  case False
  then obtain ids where ids: "NameWords data name = Some ids"
    by (cases "NameWords data name") (simp_all add: lookupWords_def)
  with assms(3) have r: "\<forall>w \<in> set ids. unat w < length (intToStr (Dict data))" by blast
  from build_mono [OF assms(1) r assms(4)] obtain keys keys' where
    k: "buildExpandedPairMappings ids (tradeoutsOf (Dict data) wm) (Dict data) = Some keys"
       "buildExpandedPairMappings ids (tradeoutsOf (Dict data) wm') (Dict data) = Some keys'"
       "set keys \<subseteq> set keys'" by blast
  from pairsLines_mono [OF assms(1,2) k(3), of data name] False ids k(1,2)
  show ?thesis by (simp add: nameLines_def withTable_fields lookupWords_def)
qed

lemma outputLines_mono:
  assumes "enlarges wm wm'" "n \<le> n'"
    and "\<forall>name ids. NameWords data name = Some ids \<longrightarrow>
             (\<forall>w \<in> set ids. unat w < length (intToStr (Dict data)))"
    and "\<forall>k ms. wm' k = Some ms \<longrightarrow> (\<forall>m \<in> set ms. unat m < length (intToStr (Dict data)))"
  shows "outputLines (withTable data wm) n jobs \<subseteq> outputLines (withTable data wm') n' jobs"
  using nameLines_mono [OF assms] by (fastforce simp: outputLines_def)

lemma processBatch_mono:
  assumes "enlarges wm wm'" "n \<le> n'"
    and "\<forall>name ids. NameWords data name = Some ids \<longrightarrow>
             (\<forall>w \<in> set ids. unat w < length (intToStr (Dict data)))"
    and "\<forall>k ms. wm' k = Some ms \<longrightarrow> (\<forall>m \<in> set ms. unat m < length (intToStr (Dict data)))"
    and "2 * jobsCount (withTable data wm) jobs + 11 < 2 ^ 64"
    and "2 * jobsCount (withTable data wm') jobs + 11 < 2 ^ 64"
  shows "\<exists>out out'. processBatch jobs (withTable data wm) n = Some out
           \<and> processBatch jobs (withTable data wm') n' = Some out'
           \<and> set out \<subseteq> set out'"
proof -
  have "wellFormed (withTable data wm)"
    using assms(3) enlarges_range [OF assms(1,4)] by (rule wellFormed_withTable)
  from processBatch_Some [OF this] obtain out where
    o: "processBatch jobs (withTable data wm) n = Some out" by blast
  have "wellFormed (withTable data wm')"
    using assms(3,4) by (rule wellFormed_withTable)
  from processBatch_Some [OF this] obtain out' where
    o': "processBatch jobs (withTable data wm') n' = Some out'" by blast
  have "set out = outputLines (withTable data wm) n jobs"
    using o assms(5) by (rule processBatch_output)
  moreover have "set out' = outputLines (withTable data wm') n' jobs"
    using o' assms(6) by (rule processBatch_output)
  ultimately have "set out \<subseteq> set out'"
    using outputLines_mono [OF assms(1-4)] by simp
  with o o' show ?thesis by blast
qed

lemma exampleNames_fields:
  "NameWords exampleNames = [''bill w'' \<mapsto> [0, 1], ''william w'' \<mapsto> [2, 1]]"
  "PairToNames exampleNames = [''bill_w'' \<mapsto> [''bill w''], ''w_william'' \<mapsto> [''william w'']]"
  "intToStr (Dict exampleNames) = [''bill'', ''w'', ''william'']"
  by (simp_all add: exampleNames_def)

lemma exampleNames_keys:
  "buildExpandedPairMappings [0, 1]
     (tradeoutsOf (Dict exampleNames) [0 \<mapsto> [0], 1 \<mapsto> [1], 2 \<mapsto> [2]]) (Dict exampleNames)
     = Some [''bill_w'']"
  "buildExpandedPairMappings [0, 1]
     (tradeoutsOf (Dict exampleNames) [0 \<mapsto> [0, 2], 1 \<mapsto> [1], 2 \<mapsto> [2, 0]]) (Dict exampleNames)
     = Some [''bill_w'', ''w_william'']"
  by (simp_all add: exampleNames_def buildExpandedPairMappings_def positionOptions_def
        positionOption_def GetStr_def load_def pairKey_def dedupKey_def writeIDs_def
        decimal.simps digitChar_def word_le_nat_alt tradeoutsOf_def)

lemma exampleNames_small:
  "processBatch [''bill w''] (withTable exampleNames [0 \<mapsto> [0], 1 \<mapsto> [1], 2 \<mapsto> [2]]) 3 = Some []"
  by (simp add: processBatch_def newWorker_def processName_def lookupWords_def withTable_fields
       exampleNames_fields exampleNames_keys processOther_def)

lemma exampleNames_large:
  "processBatch [''bill w''] (withTable exampleNames [0 \<mapsto> [0, 2], 1 \<mapsto> [1], 2 \<mapsto> [2, 0]]) 3
     = Some [matchString ''bill w'' ''william w'' @ newline]"
  by (simp add: processBatch_def newWorker_def processName_def lookupWords_def withTable_fields
       exampleNames_fields exampleNames_keys processOther_def validateCall_def
       validateOptimized_def store_def load_def thresholds_def Let_def numeral_3_eq_3)

lemma exampleNames_counts:
  "jobsCount (withTable exampleNames [0 \<mapsto> [0], 1 \<mapsto> [1], 2 \<mapsto> [2]]) [''bill w''] = 0"
  "jobsCount (withTable exampleNames [0 \<mapsto> [0, 2], 1 \<mapsto> [1], 2 \<mapsto> [2, 0]]) [''bill w''] = 1"
  by (simp_all add: jobsCount_def nameCount_def pairsCount_def othersCount_def lookupWords_def
        withTable_fields exampleNames_fields exampleNames_keys)

section \<open>The claims\<close>

text \<open>
  C1 as stated fails, since the claim counts a token as stamped by the other name's
  equivalence closure, in which a token without an entry in WordMatches stands for itself
  (spec, section 4.4). For \<open>A = B = [0, 1]\<close>, an empty table, a zeroed buffer of length 2
  and the fresh generation 12, both of the claim's mismatch counts are 0, none of R1, R2,
  R3 holds and the claim's rule accepts; the code marks nothing, counts two mismatches
  for each name and rejects by R3.
\<close>

theorem validateOptimized_decision_counterexample:
  "mismatch_spec Map.empty [0, 1] [0, 1] = 0
   \<and> accept_spec Map.empty [0, 1] [0, 1]
   \<and> (12 :: u64) \<notin> set [0, 0] \<and> (12 + 1 :: u64) \<notin> set [0, 0]
   \<and> populate [0, 1] Map.empty [0, 0] 12 = Some [0, 0]
   \<and> checkAgainst [] [0, 1] [0, 0] 12 0 = Some 2
   \<and> checkAgainst [] [0, 1] [0, 0] (12 + 1) 0 = Some 2
   \<and> validateOptimized [0, 1] [0, 1] Map.empty [0, 0] 12 = Some (False, [0, 0])"
  by (simp add: validateOptimized_def store_def load_def thresholds_def
        accept_spec_def mismatch_spec_def closure_spec_def R1_def R2_def R3_def)

text \<open>
  C1, amended. For every pair of token vectors \<open>A\<close> and \<open>B\<close> (and every table, buffer and
  generation) the validator returns without a panic and accepts exactly when none of
  the reject rules R1, R2, R3 holds, where \<open>mismatchA\<close> is the counter the code computes:
  the number of distinct tokens of \<open>A\<close> whose cell is not stamped after the marking loop
  over \<open>B\<close>, and \<open>mismatchB\<close> symmetrically. Every accepted pair has
  \<open>matchA \<ge> 2\<close> and \<open>matchB \<ge> 2\<close>; an accepted pair with \<open>|A| = 3\<close> and \<open>|B| \<ge> 3\<close> has
  \<open>mismatchA = 0\<close>, and symmetrically. When the generation is fresh (neither \<open>gen\<close> nor
  \<open>gen + 1\<close> occurs in the buffer), \<open>mismatchA\<close> is the number of distinct tokens of \<open>A\<close>
  that are not, with an id below the buffer length, in the WordMatches list of a token
  of \<open>B\<close> that has an entry; a token of \<open>B\<close> without an entry stamps nothing. When
  moreover every token of \<open>A\<close> and \<open>B\<close> has an entry and an id below the buffer length,
  the counters and the decision are those of the claim as stated.
\<close>

theorem validateOptimized_decision:
  "let lenA = int (length A); lenB = int (length B);
       buf1 = stamp_spec (closure wm B) gen buf;
       buf2 = stamp_spec (closure wm A) (gen + 1) buf1;
       mismatchA = unstamped buf1 gen A;
       mismatchB = unstamped buf2 (gen + 1) B;
       matchA = lenA - mismatchA;
       matchB = lenB - mismatchB;
       accept = (\<not> R1 lenA lenB mismatchB \<and> \<not> R2 lenA lenB mismatchA \<and> \<not> R3 matchA matchB)
   in validateOptimized A B wm buf gen = Some (accept, buf2)
      \<and> populate B wm buf gen = Some buf1
      \<and> checkAgainst [] A buf1 gen 0 = Some mismatchA
      \<and> populate A wm buf1 (gen + 1) = Some buf2
      \<and> checkAgainst [] B buf2 (gen + 1) 0 = Some mismatchB
      \<and> (accept \<longrightarrow> matchA \<ge> 2 \<and> matchB \<ge> 2)
      \<and> (accept \<and> lenA = 3 \<and> lenB \<ge> 3 \<longrightarrow> mismatchA = 0)
      \<and> (accept \<and> lenB = 3 \<and> lenA \<ge> 3 \<longrightarrow> mismatchB = 0)
      \<and> (gen \<notin> set buf \<and> gen + 1 \<notin> set buf \<longrightarrow>
           mismatchA = mismatch_code wm (length buf) A B
           \<and> mismatchB = mismatch_code wm (length buf) B A
           \<and> accept = accept_code wm (length buf) A B)
      \<and> (gen \<notin> set buf \<and> gen + 1 \<notin> set buf
           \<and> (\<forall>w \<in> set A \<union> set B. wm w \<noteq> None \<and> unat w < length buf) \<longrightarrow>
           mismatchA = mismatch_spec wm A B
           \<and> mismatchB = mismatch_spec wm B A
           \<and> accept = accept_spec wm A B)"
proof -
  define buf1 where "buf1 = stamp_spec (closure wm B) gen buf"
  define buf2 where "buf2 = stamp_spec (closure wm A) (gen + 1) buf1"
  define mA where "mA = unstamped buf1 gen A"
  define mB where "mB = unstamped buf2 (gen + 1) B"
  define acc where "acc = (\<not> R1 (int (length A)) (int (length B)) mB
      \<and> \<not> R2 (int (length A)) (int (length B)) mA
      \<and> \<not> R3 (int (length A) - mA) (int (length B) - mB))"
  have v: "validateOptimized A B wm buf gen = Some (acc, buf2)"
    by (simp add: validateOptimized_eq thresholds_rules acc_def mA_def mB_def buf1_def buf2_def)
  have p1: "populate B wm buf gen = Some buf1"
    by (simp add: populate_eq buf1_def)
  have c1: "checkAgainst [] A buf1 gen 0 = Some mA"
    by (simp add: checkAgainst_unstamped mA_def)
  have p2: "populate A wm buf1 (gen + 1) = Some buf2"
    by (simp add: populate_eq buf2_def)
  have c2: "checkAgainst [] B buf2 (gen + 1) 0 = Some mB"
    by (simp add: checkAgainst_unstamped mB_def)
  have nonneg: "0 \<le> mA" "0 \<le> mB"
    by (simp_all add: mA_def mB_def unstamped_def)
  have floor: "acc \<longrightarrow> int (length A) - mA \<ge> 2 \<and> int (length B) - mB \<ge> 2"
    by (auto simp: acc_def R3_def)
  have strictA: "acc \<and> int (length A) = 3 \<and> int (length B) \<ge> 3 \<longrightarrow> mA = 0"
    using nonneg by (auto simp: acc_def R2_def)
  have strictB: "acc \<and> int (length B) = 3 \<and> int (length A) \<ge> 3 \<longrightarrow> mB = 0"
    using nonneg by (auto simp: acc_def R1_def)
  have fresh: "gen \<notin> set buf \<and> gen + 1 \<notin> set buf \<longrightarrow>
           mA = mismatch_code wm (length buf) A B
           \<and> mB = mismatch_code wm (length buf) B A
           \<and> acc = accept_code wm (length buf) A B"
  proof
    assume f: "gen \<notin> set buf \<and> gen + 1 \<notin> set buf"
    have a: "mA = mismatch_code wm (length buf) A B"
      using f by (simp add: mA_def buf1_def unstamped_fresh)
    have "gen + 1 \<notin> set buf1"
      unfolding buf1_def using f by (intro fresh_after_stamp) simp_all
    then have b: "mB = mismatch_code wm (length buf) B A"
      using unstamped_fresh [of "gen + 1" buf1 wm A B]
      by (simp add: mB_def buf2_def buf1_def length_stamp_spec)
    show "mA = mismatch_code wm (length buf) A B
           \<and> mB = mismatch_code wm (length buf) B A
           \<and> acc = accept_code wm (length buf) A B"
      using a b by (simp add: acc_def accept_code_def Let_def)
  qed
  have total: "gen \<notin> set buf \<and> gen + 1 \<notin> set buf
           \<and> (\<forall>w \<in> set A \<union> set B. wm w \<noteq> None \<and> unat w < length buf) \<longrightarrow>
           mA = mismatch_spec wm A B
           \<and> mB = mismatch_spec wm B A
           \<and> acc = accept_spec wm A B"
  proof
    assume t: "gen \<notin> set buf \<and> gen + 1 \<notin> set buf
           \<and> (\<forall>w \<in> set A \<union> set B. wm w \<noteq> None \<and> unat w < length buf)"
    then have e: "\<forall>w \<in> set A \<union> set B. wm w \<noteq> None \<and> unat w < length buf" by blast
    have "mismatch_code wm (length buf) A B = mismatch_spec wm A B"
      "mismatch_code wm (length buf) B A = mismatch_spec wm B A"
      using e by (intro mismatch_code_spec; auto)+
    moreover have "accept_code wm (length buf) A B = accept_spec wm A B"
      using e by (rule accept_code_spec)
    ultimately show "mA = mismatch_spec wm A B \<and> mB = mismatch_spec wm B A
           \<and> acc = accept_spec wm A B"
      using fresh t by simp
  qed
  show ?thesis
    unfolding Let_def
    using v p1 c1 p2 c2 floor strictA strictB fresh total
    unfolding acc_def mA_def mB_def buf2_def buf1_def
    by blast
qed

theorem validateOptimized_decision_witness:
  "validateOptimized [0, 1, 2] [2, 1, 0] [0 \<mapsto> [0], 1 \<mapsto> [1], 2 \<mapsto> [2]] [0, 0, 0] 12
     = Some (True, [13, 13, 13])
   \<and> (12::u64) \<notin> set [0, 0, 0] \<and> (12 + 1::u64) \<notin> set [0, 0, 0]
   \<and> int (length [0, 1, 2 :: u32]) = 3 \<and> int (length [2, 1, 0 :: u32]) \<ge> 3
   \<and> [0 \<mapsto> [0], 1 \<mapsto> [1], 2 \<mapsto> [2 :: u32]] (0 :: u32) = Some [0]
   \<and> [0 \<mapsto> [0], 1 \<mapsto> [1], 2 \<mapsto> [2 :: u32]] (1 :: u32) = Some [1]
   \<and> [0 \<mapsto> [0], 1 \<mapsto> [1], 2 \<mapsto> [2 :: u32]] (2 :: u32) = Some [2]
   \<and> unat (0 :: u32) < length [0, 0, 0 :: u64] \<and> unat (1 :: u32) < length [0, 0, 0 :: u64]
   \<and> unat (2 :: u32) < length [0, 0, 0 :: u64]
   \<and> mismatch_code [0 \<mapsto> [0], 1 \<mapsto> [1], 2 \<mapsto> [2]] 3 [0, 1, 2] [2, 1, 0] = 0
   \<and> mismatch_code [0 \<mapsto> [0], 1 \<mapsto> [1], 2 \<mapsto> [2]] 3 [2, 1, 0] [0, 1, 2] = 0
   \<and> accept_code [0 \<mapsto> [0], 1 \<mapsto> [1], 2 \<mapsto> [2]] 3 [0, 1, 2] [2, 1, 0]
   \<and> mismatch_spec [0 \<mapsto> [0], 1 \<mapsto> [1], 2 \<mapsto> [2]] [0, 1, 2] [2, 1, 0] = 0
   \<and> mismatch_spec [0 \<mapsto> [0], 1 \<mapsto> [1], 2 \<mapsto> [2]] [2, 1, 0] [0, 1, 2] = 0
   \<and> accept_spec [0 \<mapsto> [0], 1 \<mapsto> [1], 2 \<mapsto> [2]] [0, 1, 2] [2, 1, 0]"
  using validateOptimized_decision
    [of "[0, 1, 2]" "[2, 1, 0]" "[0 \<mapsto> [0], 1 \<mapsto> [1], 2 \<mapsto> [2]]" 12 "[0, 0, 0]"]
  by (simp add: validateOptimized_def store_def load_def thresholds_def Let_def
       accept_code_def R1_def R2_def R3_def mismatch_code_def stampedBy_def closure_def
       accept_spec_def mismatch_spec_def closure_spec_def)

text \<open>
  C2 as stated fails. With an empty table, marking from \<open>B = [0, 1]\<close> with generation 12
  leaves the zeroed buffer as it is: the cell of the token 0 of \<open>B\<close>, which has no entry,
  is not stamped, both tokens of \<open>A = [0, 1]\<close> are counted as mismatches, and the two
  identical names are rejected.
\<close>

theorem absent_entry_counterexample:
  "[0, 1 :: u32] = [0, 1] \<and> (Map.empty :: u32 \<rightharpoonup> u32 list) 0 = None
   \<and> populate [0, 1] Map.empty [0, 0] 12 = Some [0, 0]
   \<and> [0, 0 :: u64] ! unat (0 :: u32) \<noteq> 12
   \<and> checkAgainst [] [0, 1] [0, 0] 12 0 = Some 2
   \<and> validateOptimized [0, 1] [0, 1] Map.empty [0, 0] 12 = Some (False, [0, 0])"
  by (simp add: validateOptimized_def store_def load_def thresholds_def)

text \<open>
  C2, amended. The marking loop stamps exactly the ids below the buffer length that occur
  in the table's list of some token of \<open>B\<close> that has an entry, and keeps every other
  cell; a token without an entry adds nothing to the stamped ids. So, under a fresh
  generation, a token \<open>w\<close> of \<open>B\<close> without an entry that no list of a token of \<open>B\<close>
  contains is not stamped, and a token of \<open>A\<close> equal to \<open>w\<close> is counted as one mismatch.
\<close>

theorem absent_entry_stamps_nothing:
  "populate B wm buf g = Some (stamp_spec (closure wm B) g buf)
   \<and> (\<forall>x < length buf.
         stamp_spec (closure wm B) g buf ! x = (if x \<in> unat ` closure wm B then g else buf ! x))
   \<and> (\<forall>w. wm w = None \<longrightarrow> closure wm (w # B) = closure wm B)
   \<and> (\<forall>w \<in> set B. wm w = None \<and> w \<notin> closure wm B \<and> g \<notin> set buf \<longrightarrow>
         \<not> stamped (stamp_spec (closure wm B) g buf) g w
         \<and> (\<forall>A. w \<in> set A \<longrightarrow>
               checkAgainst [] A (stamp_spec (closure wm B) g buf) g 0
                 = Some (1 + unstamped (stamp_spec (closure wm B) g buf) g (removeAll w A))))"
proof -
  have "\<not> stamped (stamp_spec (closure wm B) g buf) g w"
    if "w \<notin> closure wm B" "g \<notin> set buf" for w
    using that by (simp add: stamped_stamp_spec stampedBy_def)
  then show ?thesis
    using unstamped_removeAll [of _ _ "stamp_spec (closure wm B) g buf" g]
    by (simp add: populate_eq nth_stamp_spec closure_Cons checkAgainst_unstamped)
qed

theorem absent_entry_stamps_nothing_witness:
  "populate [0, 1] [1 \<mapsto> [1, 2]] [0, 0, 0] 12 = Some [0, 12, 12]
   \<and> (0::u32) \<in> set [0, 1] \<and> [1 \<mapsto> [1, 2::u32]] (0::u32) = None
   \<and> (0::u32) \<notin> closure [1 \<mapsto> [1, 2]] [0, 1] \<and> (12::u64) \<notin> set [0, 0, 0]
   \<and> \<not> stamped [0, 12, 12] 12 0
   \<and> checkAgainst [] [1, 0] [0, 12, 12] 12 0 = Some 1"
  using absent_entry_stamps_nothing [of "[0, 1]" "[1 \<mapsto> [1, 2]]" "[0, 0, 0]" 12]
  by (simp add: store_def load_def stamped_def closure_def stamp_spec_def)

text \<open>
  C5. The decision on \<open>(x, y)\<close> equals the decision on \<open>(y, x)\<close>, for any table, whenever
  each of the two calls runs with a fresh generation (neither \<open>gen\<close> nor \<open>gen + 1\<close> occurs
  in its buffer) on a buffer of the worker's length. This covers the second call running
  on the buffer the first one left, with the generation advanced by 2.
\<close>

theorem validateOptimized_commutes:
  assumes "gen \<notin> set buf" "gen + 1 \<notin> set buf"
    and "gen' \<notin> set buf'" "gen' + 1 \<notin> set buf'"
    and "length buf' = length buf"
  shows "\<exists>d s s'. validateOptimized x y wm buf gen = Some (d, s)
                 \<and> validateOptimized y x wm buf' gen' = Some (d, s')"
proof -
  have "validateOptimized x y wm buf gen =
      Some (accept_code wm (length buf) x y,
            stamp_spec (closure wm x) (gen + 1) (stamp_spec (closure wm y) gen buf))"
    using assms(1,2) by (rule validateOptimized_fresh)
  moreover have "validateOptimized y x wm buf' gen' =
      Some (accept_code wm (length buf) y x,
            stamp_spec (closure wm y) (gen' + 1) (stamp_spec (closure wm x) gen' buf'))"
    using validateOptimized_fresh [OF assms(3,4), of y x wm] assms(5) by simp
  moreover have "accept_code wm (length buf) x y = accept_code wm (length buf) y x"
    by (rule accept_code_commute)
  ultimately show ?thesis by simp
qed

theorem validateOptimized_commutes_witness:
  "(12::u64) \<notin> set [0, 0, 0] \<and> (12 + 1::u64) \<notin> set [0, 0, 0]
   \<and> (14::u64) \<notin> set [13, 13, 12] \<and> (14 + 1::u64) \<notin> set [13, 13, 12]
   \<and> length [13, 13, 12 :: u64] = length [0, 0, 0 :: u64]
   \<and> validateOptimized [0, 1] [1, 2, 0] [0 \<mapsto> [0], 1 \<mapsto> [1], 2 \<mapsto> [2]] [0, 0, 0] 12
        = Some (True, [13, 13, 12])
   \<and> validateOptimized [1, 2, 0] [0, 1] [0 \<mapsto> [0], 1 \<mapsto> [1], 2 \<mapsto> [2]] [13, 13, 12] 14
        = Some (True, [15, 15, 15])"
  using validateOptimized_commutes [of 12 "[0, 0, 0]" 14 "[13, 13, 12]" "[0, 1]" "[1, 2, 0]"
      "[0 \<mapsto> [0], 1 \<mapsto> [1], 2 \<mapsto> [2]]"]
  by (simp add: validateOptimized_def store_def load_def thresholds_def Let_def)

text \<open>
  C9. For all token vectors, tables, buffers and generations, both marking loops and both
  counting loops return without an out-of-range access, the validator returns a boolean,
  and the buffer keeps its length. A token whose id is not below the buffer length
  contributes exactly one to the mismatch counter of its name.
\<close>

theorem validateOptimized_total:
  "let buf1 = stamp_spec (closure wm B) gen buf;
       buf2 = stamp_spec (closure wm A) (gen + 1) buf1
   in populate B wm buf gen = Some buf1
      \<and> populate A wm buf1 (gen + 1) = Some buf2
      \<and> (\<exists>mismatchesA. checkAgainst [] A buf1 gen 0 = Some mismatchesA)
      \<and> (\<exists>mismatchesB. checkAgainst [] B buf2 (gen + 1) 0 = Some mismatchesB)
      \<and> (\<exists>d. validateOptimized A B wm buf gen = Some (d, buf2))
      \<and> length buf2 = length buf
      \<and> (\<forall>w \<in> set A. length buf \<le> unat w \<longrightarrow>
            checkAgainst [] A buf1 gen 0 = Some (1 + unstamped buf1 gen (removeAll w A)))
      \<and> (\<forall>w \<in> set B. length buf \<le> unat w \<longrightarrow>
            checkAgainst [] B buf2 (gen + 1) 0 = Some (1 + unstamped buf2 (gen + 1) (removeAll w B)))"
proof -
  define buf1 where "buf1 = stamp_spec (closure wm B) gen buf"
  define buf2 where "buf2 = stamp_spec (closure wm A) (gen + 1) buf1"
  have len: "length buf1 = length buf" "length buf2 = length buf"
    by (simp_all add: buf1_def buf2_def length_stamp_spec)
  have a: "\<forall>w \<in> set A. length buf \<le> unat w \<longrightarrow>
            checkAgainst [] A buf1 gen 0 = Some (1 + unstamped buf1 gen (removeAll w A))"
    using unstamped_removeAll [of _ A buf1 gen] not_stamped_out_of_range [of buf1 _ gen] len
    by (simp add: checkAgainst_unstamped)
  have b: "\<forall>w \<in> set B. length buf \<le> unat w \<longrightarrow>
            checkAgainst [] B buf2 (gen + 1) 0 = Some (1 + unstamped buf2 (gen + 1) (removeAll w B))"
    using unstamped_removeAll [of _ B buf2 "gen + 1"] not_stamped_out_of_range [of buf2 _ "gen + 1"] len
    by (simp add: checkAgainst_unstamped)
  have "populate B wm buf gen = Some buf1" "populate A wm buf1 (gen + 1) = Some buf2"
    by (simp_all add: populate_eq buf1_def buf2_def)
  moreover have "\<exists>d. validateOptimized A B wm buf gen = Some (d, buf2)"
    by (simp add: validateOptimized_eq buf1_def buf2_def)
  moreover have "\<exists>mismatchesA. checkAgainst [] A buf1 gen 0 = Some mismatchesA"
    "\<exists>mismatchesB. checkAgainst [] B buf2 (gen + 1) 0 = Some mismatchesB"
    by (simp_all add: checkAgainst_unstamped)
  ultimately show ?thesis
    unfolding Let_def buf1_def [symmetric] buf2_def [symmetric]
    using a b len by blast
qed

theorem validateOptimized_total_witness:
  "validateOptimized [0, 7, 1] [1, 0] [0 \<mapsto> [0, 9], 1 \<mapsto> [1]] [0, 0] 12 = Some (True, [13, 13])
   \<and> (7::u32) \<in> set [0, 7, 1] \<and> length [0, 0 :: u64] \<le> unat (7::u32)
   \<and> checkAgainst [] [0, 7, 1] [12, 12] 12 0 = Some 1
   \<and> unstamped [12, 12] 12 (removeAll 7 [0, 7, 1]) = 0"
  using validateOptimized_total [of "[0 \<mapsto> [0, 9], 1 \<mapsto> [1]]" "[1, 0]" 12 "[0, 0]" "[0, 7, 1]"]
  by (simp add: validateOptimized_def store_def load_def thresholds_def Let_def
       unstamped_def stamped_def stamp_spec_def closure_def)



text \<open>
  C4 as stated fails. For the name \<open>bill william\<close> with \<open>Tradeouts[bill] = [bill, william]\<close>
  and \<open>Tradeouts[william] = [william, bill]\<close> both positions have the options
  \<open>[bill, william]\<close>; the product of the one position pair yields \<open>bill_william\<close> twice
  (once from \<open>(bill, william)\<close>, once from \<open>(william, bill)\<close> after ordering the
  strings), so the returned sequence is not free of duplicates.
\<close>

theorem buildExpandedPairMappings_counterexample:
  "2 \<le> length [0, 1 :: u32]
   \<and> buildExpandedPairMappings [0, 1] [0 \<mapsto> [0, 1], 1 \<mapsto> [1, 0]]
        \<lparr>strToInt = [''bill'' \<mapsto> 0, ''william'' \<mapsto> 1], intToStr = [''bill'', ''william'']\<rparr>
      = Some [''bill_bill'', ''bill_william'', ''bill_william'', ''william_william'']
   \<and> \<not> distinct [''bill_bill'', ''bill_william'', ''bill_william'', ''william_william'']"
  by (simp add: buildExpandedPairMappings_def positionOptions_def positionOption_def GetStr_def
        load_def pairKey_def dedupKey_def writeIDs_def decimal.simps digitChar_def word_le_nat_alt)

text \<open>
  C4, amended. For every token vector all of whose options (the tokens and the ids in
  their Tradeouts lists) are in the dictionary, the builder returns, and the strings it
  returns are exactly the pair-keys \<open>min s1 s2 + "_" + max s1 s2\<close> (the two strings in
  byte-wise string order, not id order) of the strings \<open>s1 = str(wI)\<close>, \<open>s2 = str(wJ)\<close> of
  the options \<open>wI\<close> of a position \<open>i\<close> and \<open>wJ\<close> of a later position \<open>j\<close>. (Nothing is
  said on how often a pair-key occurs.)
\<close>

theorem buildExpandedPairMappings_keys:
  assumes "\<forall>w \<in> set parts. \<forall>v \<in> optionSet t w. unat v < length (intToStr d)"
  shows "\<exists>results. buildExpandedPairMappings parts t d = Some results
     \<and> (\<forall>k. k \<in> set results \<longleftrightarrow>
           (\<exists>i j wI wJ s1 s2. i < j \<and> j < length parts
               \<and> wI \<in> optionSet t (parts ! i) \<and> wJ \<in> optionSet t (parts ! j)
               \<and> GetStr d wI = Some s1 \<and> GetStr d wJ = Some s2
               \<and> k = min s1 s2 @ ''_'' @ max s1 s2))"
proof -
  from build_keys [OF assms] obtain results where
    r: "buildExpandedPairMappings parts t d = Some results"
       "set results = {pairKey (str d wI) (str d wJ) | i j wI wJ.
           i < j \<and> j < length parts \<and> wI \<in> optionSet t (parts ! i) \<and> wJ \<in> optionSet t (parts ! j)}"
    by blast
  have g: "GetStr d v = Some (str d v)" if "i < length parts" "v \<in> optionSet t (parts ! i)" for i v
    using that assms by (intro GetStr_in_range) auto
  have "k \<in> set results \<longleftrightarrow>
           (\<exists>i j wI wJ s1 s2. i < j \<and> j < length parts
               \<and> wI \<in> optionSet t (parts ! i) \<and> wJ \<in> optionSet t (parts ! j)
               \<and> GetStr d wI = Some s1 \<and> GetStr d wJ = Some s2
               \<and> k = min s1 s2 @ ''_'' @ max s1 s2)" for k
  proof
    assume "k \<in> set results"
    with r(2) obtain i j wI wJ where ij: "i < j" "j < length parts"
      and w: "wI \<in> optionSet t (parts ! i)" "wJ \<in> optionSet t (parts ! j)"
      and k: "k = pairKey (str d wI) (str d wJ)" by blast
    have "GetStr d wI = Some (str d wI)" "GetStr d wJ = Some (str d wJ)"
      using g [of i wI] g [of j wJ] ij w by simp_all
    with ij w k show "\<exists>i j wI wJ s1 s2. i < j \<and> j < length parts
               \<and> wI \<in> optionSet t (parts ! i) \<and> wJ \<in> optionSet t (parts ! j)
               \<and> GetStr d wI = Some s1 \<and> GetStr d wJ = Some s2
               \<and> k = min s1 s2 @ ''_'' @ max s1 s2"
      unfolding pairKey_min_max by blast
  next
    assume "\<exists>i j wI wJ s1 s2. i < j \<and> j < length parts
               \<and> wI \<in> optionSet t (parts ! i) \<and> wJ \<in> optionSet t (parts ! j)
               \<and> GetStr d wI = Some s1 \<and> GetStr d wJ = Some s2
               \<and> k = min s1 s2 @ ''_'' @ max s1 s2"
    then obtain i j wI wJ s1 s2 where ij: "i < j" "j < length parts"
      and w: "wI \<in> optionSet t (parts ! i)" "wJ \<in> optionSet t (parts ! j)"
      and s: "GetStr d wI = Some s1" "GetStr d wJ = Some s2"
      and k: "k = min s1 s2 @ ''_'' @ max s1 s2" by blast
    have "s1 = str d wI" "s2 = str d wJ"
      using g [of i wI] g [of j wJ] ij w s by simp_all
    with k have "k = pairKey (str d wI) (str d wJ)" by (simp add: pairKey_min_max)
    with ij w r(2) show "k \<in> set results" by blast
  qed
  with r(1) show ?thesis by blast
qed

theorem buildExpandedPairMappings_keys_witness:
  "buildExpandedPairMappings [0, 1] [0 \<mapsto> [0, 1], 1 \<mapsto> [1, 0]]
        \<lparr>strToInt = [''bill'' \<mapsto> 0, ''william'' \<mapsto> 1], intToStr = [''bill'', ''william'']\<rparr>
      = Some [''bill_bill'', ''bill_william'', ''bill_william'', ''william_william'']
   \<and> optionSet [0 \<mapsto> [0, 1], 1 \<mapsto> [1, 0]] 0 = {0, 1}
   \<and> optionSet [0 \<mapsto> [0, 1], 1 \<mapsto> [1, 0]] 1 = {0, 1}
   \<and> unat (0 :: u32) < length [''bill'', ''william'']
   \<and> unat (1 :: u32) < length [''bill'', ''william'']
   \<and> (\<exists>i j wI wJ s1 s2. i < j \<and> j < length [0, 1 :: u32]
         \<and> wI \<in> optionSet [0 \<mapsto> [0, 1], 1 \<mapsto> [1, 0]] ([0, 1] ! i)
         \<and> wJ \<in> optionSet [0 \<mapsto> [0, 1], 1 \<mapsto> [1, 0]] ([0, 1] ! j)
         \<and> GetStr \<lparr>strToInt = [''bill'' \<mapsto> 0, ''william'' \<mapsto> 1],
                   intToStr = [''bill'', ''william'']\<rparr> wI = Some s1
         \<and> GetStr \<lparr>strToInt = [''bill'' \<mapsto> 0, ''william'' \<mapsto> 1],
                   intToStr = [''bill'', ''william'']\<rparr> wJ = Some s2
         \<and> ''bill_william'' = min s1 s2 @ ''_'' @ max s1 s2)"
proof -
  let ?d = "\<lparr>strToInt = [''bill'' \<mapsto> 0, ''william'' \<mapsto> 1], intToStr = [''bill'', ''william'']\<rparr>"
  let ?t = "[0 \<mapsto> [0, 1], 1 \<mapsto> [1, 0 :: u32]]"
  have o: "optionSet ?t 0 = {0, 1}" "optionSet ?t 1 = {0, 1}"
    by (auto simp: optionSet_def)
  have u: "unat (0 :: u32) < length [''bill'', ''william'']"
    "unat (1 :: u32) < length [''bill'', ''william'']" by simp_all
  have h: "\<forall>w \<in> set [0, 1 :: u32]. \<forall>v \<in> optionSet ?t w. unat v < length (intToStr ?d)"
    using o by simp
  have e: "buildExpandedPairMappings [0, 1] ?t ?d
      = Some [''bill_bill'', ''bill_william'', ''bill_william'', ''william_william'']"
    by (simp add: buildExpandedPairMappings_def positionOptions_def positionOption_def GetStr_def
        load_def pairKey_def dedupKey_def writeIDs_def decimal.simps digitChar_def word_le_nat_alt)
  from buildExpandedPairMappings_keys [OF h] e
  have "\<forall>k. k \<in> set [''bill_bill'', ''bill_william'', ''bill_william'', ''william_william''] \<longleftrightarrow>
           (\<exists>i j wI wJ s1 s2. i < j \<and> j < length [0, 1 :: u32]
               \<and> wI \<in> optionSet ?t ([0, 1] ! i) \<and> wJ \<in> optionSet ?t ([0, 1] ! j)
               \<and> GetStr ?d wI = Some s1 \<and> GetStr ?d wJ = Some s2
               \<and> k = min s1 s2 @ ''_'' @ max s1 s2)"
    by simp
  from this [THEN spec, of "''bill_william''"]
  have x: "\<exists>i j wI wJ s1 s2. i < j \<and> j < length [0, 1 :: u32]
               \<and> wI \<in> optionSet ?t ([0, 1] ! i) \<and> wJ \<in> optionSet ?t ([0, 1] ! j)
               \<and> GetStr ?d wI = Some s1 \<and> GetStr ?d wJ = Some s2
               \<and> ''bill_william'' = min s1 s2 @ ''_'' @ max s1 s2"
    by simp
  from e o u x show ?thesis by (intro conjI)
qed

text \<open>
  C6. Let the table \<open>wm'\<close> enlarge \<open>wm\<close> (every list of \<open>wm\<close> is contained in the list of
  \<open>wm'\<close> for the same token), all ids being in the dictionary, and let Tradeouts be
  recomputed from each table by the preprocessing rule. Then (1) for every token vector
  the set of probe keys the builder returns under \<open>wm\<close> is contained in the set it
  returns under \<open>wm'\<close>; (2) every pair the validator accepts under \<open>wm\<close> it accepts
  under \<open>wm'\<close>, each call with a fresh generation; (3) for every list of jobs, the set of
  lines a worker writes under \<open>wm\<close> is contained in the set it writes under \<open>wm'\<close>, as
  long as the generation counter does not wrap; (4) the preprocessing rule is what the
  conversion loop of preprocessData computes, for dictionaries of at most \<open>2 ^ 32\<close>
  strings.
\<close>

theorem enlarging_WordMatches_monotone:
  assumes "enlarges wm wm'"
    and "\<forall>name ids. NameWords data name = Some ids \<longrightarrow>
           (\<forall>w \<in> set ids. unat w < length (intToStr (Dict data)))"
    and "\<forall>k ms. wm' k = Some ms \<longrightarrow> (\<forall>m \<in> set ms. unat m < length (intToStr (Dict data)))"
    and "n \<le> n'"
  shows "(\<forall>parts. (\<forall>w \<in> set parts. unat w < length (intToStr (Dict data))) \<longrightarrow>
            (\<exists>keys keys'.
               buildExpandedPairMappings parts (tradeoutsOf (Dict data) wm) (Dict data) = Some keys
               \<and> buildExpandedPairMappings parts (tradeoutsOf (Dict data) wm') (Dict data) = Some keys'
               \<and> set keys \<subseteq> set keys'))
       \<and> (\<forall>A B buf gen buf' gen'.
             length buf = n \<and> length buf' = n' \<and> gen \<notin> set buf \<and> gen + 1 \<notin> set buf
             \<and> gen' \<notin> set buf' \<and> gen' + 1 \<notin> set buf' \<longrightarrow>
             (\<exists>ok ok' s s'. validateOptimized A B wm buf gen = Some (ok, s)
                \<and> validateOptimized A B wm' buf' gen' = Some (ok', s')
                \<and> (ok \<longrightarrow> ok')))
       \<and> (\<forall>jobs. 2 * jobsCount (withTable data wm) jobs + 11 < 2 ^ 64
                 \<and> 2 * jobsCount (withTable data wm') jobs + 11 < 2 ^ 64 \<longrightarrow>
             (\<exists>out out'. processBatch jobs (withTable data wm) n = Some out
                \<and> processBatch jobs (withTable data wm') n' = Some out'
                \<and> set out \<subseteq> set out'))
       \<and> (\<forall>raw d0 w2m t.
             convertWordToMatches raw (NewDictionary, Map.empty, Map.empty) = (d0, w2m, t)
             \<and> length (intToStr d0) \<le> 2 ^ 32 \<longrightarrow> t = tradeoutsOf d0 w2m)"
proof (intro conjI allI impI)
  fix parts :: "u32 list"
  assume "\<forall>w \<in> set parts. unat w < length (intToStr (Dict data))"
  with assms(1) show "\<exists>keys keys'.
               buildExpandedPairMappings parts (tradeoutsOf (Dict data) wm) (Dict data) = Some keys
               \<and> buildExpandedPairMappings parts (tradeoutsOf (Dict data) wm') (Dict data) = Some keys'
               \<and> set keys \<subseteq> set keys'"
    using assms(3) by (rule build_mono)
next
  fix A B :: "u32 list" and buf buf' :: "u64 list" and gen gen' :: u64
  assume a: "length buf = n \<and> length buf' = n' \<and> gen \<notin> set buf \<and> gen + 1 \<notin> set buf
             \<and> gen' \<notin> set buf' \<and> gen' + 1 \<notin> set buf'"
  have "validateOptimized A B wm buf gen =
      Some (accept_code wm (length buf) A B,
            stamp_spec (closure wm A) (gen + 1) (stamp_spec (closure wm B) gen buf))"
    using a by (intro validateOptimized_fresh) simp_all
  moreover have "validateOptimized A B wm' buf' gen' =
      Some (accept_code wm' (length buf') A B,
            stamp_spec (closure wm' A) (gen' + 1) (stamp_spec (closure wm' B) gen' buf'))"
    using a by (intro validateOptimized_fresh) simp_all
  moreover have "accept_code wm (length buf) A B \<longrightarrow> accept_code wm' (length buf') A B"
    using accept_code_mono [OF assms(1), of "length buf" "length buf'"] a assms(4) by blast
  ultimately show "\<exists>ok ok' s s'. validateOptimized A B wm buf gen = Some (ok, s)
            \<and> validateOptimized A B wm' buf' gen' = Some (ok', s')
            \<and> (ok \<longrightarrow> ok')" by blast
next
  fix jobs :: "string list"
  assume "2 * jobsCount (withTable data wm) jobs + 11 < 2 ^ 64
                 \<and> 2 * jobsCount (withTable data wm') jobs + 11 < 2 ^ 64"
  then show "\<exists>out out'. processBatch jobs (withTable data wm) n = Some out
                \<and> processBatch jobs (withTable data wm') n' = Some out'
                \<and> set out \<subseteq> set out'"
    using processBatch_mono [OF assms(1,4,2,3)] by blast
next
  fix raw :: "(string \<times> string list) list" and d0 :: Dictionary
    and w2m t :: "u32 \<rightharpoonup> u32 list"
  assume "convertWordToMatches raw (NewDictionary, Map.empty, Map.empty) = (d0, w2m, t)
             \<and> length (intToStr d0) \<le> 2 ^ 32"
  then show "t = tradeoutsOf d0 w2m" using preprocess_tradeouts by blast
qed

theorem enlarging_WordMatches_monotone_witness:
  "enlarges [0 \<mapsto> [0], 1 \<mapsto> [1], 2 \<mapsto> [2]] [0 \<mapsto> [0, 2], 1 \<mapsto> [1], 2 \<mapsto> [2, 0]]
   \<and> buildExpandedPairMappings [0, 1]
        (tradeoutsOf (Dict exampleNames) [0 \<mapsto> [0], 1 \<mapsto> [1], 2 \<mapsto> [2]]) (Dict exampleNames)
      = Some [''bill_w'']
   \<and> buildExpandedPairMappings [0, 1]
        (tradeoutsOf (Dict exampleNames) [0 \<mapsto> [0, 2], 1 \<mapsto> [1], 2 \<mapsto> [2, 0]]) (Dict exampleNames)
      = Some [''bill_w'', ''w_william'']
   \<and> set [''bill_w''] \<subseteq> set [''bill_w'', ''w_william'']
   \<and> validateOptimized [0, 1] [2, 1] [0 \<mapsto> [0], 1 \<mapsto> [1], 2 \<mapsto> [2]] [0, 0, 0] 12
      = Some (False, [13, 13, 12])
   \<and> validateOptimized [0, 1] [2, 1] [0 \<mapsto> [0, 2], 1 \<mapsto> [1], 2 \<mapsto> [2, 0]] [0, 0, 0] 12
      = Some (True, [13, 13, 13])
   \<and> processBatch [''bill w''] (withTable exampleNames [0 \<mapsto> [0], 1 \<mapsto> [1], 2 \<mapsto> [2]]) 3 = Some []
   \<and> processBatch [''bill w''] (withTable exampleNames [0 \<mapsto> [0, 2], 1 \<mapsto> [1], 2 \<mapsto> [2, 0]]) 3
      = Some [matchString ''bill w'' ''william w'' @ newline]
   \<and> (\<exists>out out'.
         processBatch [''bill w''] (withTable exampleNames [0 \<mapsto> [0], 1 \<mapsto> [1], 2 \<mapsto> [2]]) 3 = Some out
         \<and> processBatch [''bill w''] (withTable exampleNames [0 \<mapsto> [0, 2], 1 \<mapsto> [1], 2 \<mapsto> [2, 0]]) 3
             = Some out'
         \<and> set out \<subseteq> set out')
   \<and> (\<exists>d0 w2m t. convertWordToMatches [(''bill'', [''bill'', ''william'']), (''w'', [''w''])]
           (NewDictionary, Map.empty, Map.empty) = (d0, w2m, t)
         \<and> intToStr d0 = [''bill'', ''william'', ''w''] \<and> length (intToStr d0) \<le> 2 ^ 32
         \<and> w2m 0 = Some [0, 1] \<and> w2m 2 = Some [2]
         \<and> t = tradeoutsOf d0 w2m \<and> t 0 = Some [0, 1] \<and> t 2 = Some [2])"
proof -
  let ?wm = "[0 \<mapsto> [0], 1 \<mapsto> [1], 2 \<mapsto> [2 :: u32]] :: u32 \<rightharpoonup> u32 list"
  let ?wm' = "[0 \<mapsto> [0, 2], 1 \<mapsto> [1], 2 \<mapsto> [2, 0 :: u32]] :: u32 \<rightharpoonup> u32 list"
  have h1: "enlarges ?wm ?wm'" by (simp add: enlarges_def)
  have h2: "\<forall>name ids. NameWords exampleNames name = Some ids \<longrightarrow>
           (\<forall>w \<in> set ids. unat w < length (intToStr (Dict exampleNames)))"
    by (auto simp: exampleNames_fields split: if_splits)
  have h3: "\<forall>k ms. ?wm' k = Some ms \<longrightarrow> (\<forall>m \<in> set ms. unat m < length (intToStr (Dict exampleNames)))"
    by (auto simp: exampleNames_fields split: if_splits)
  have h4: "(3 :: nat) \<le> 3" by simp
  note mono = enlarging_WordMatches_monotone [OF h1 h2 h3 h4]
  have bounds: "2 * jobsCount (withTable exampleNames ?wm) [''bill w''] + 11 < 2 ^ 64
      \<and> 2 * jobsCount (withTable exampleNames ?wm') [''bill w''] + 11 < 2 ^ 64"
    by (simp add: exampleNames_counts)
  from mono bounds have out: "\<exists>out out'.
         processBatch [''bill w''] (withTable exampleNames ?wm) 3 = Some out
         \<and> processBatch [''bill w''] (withTable exampleNames ?wm') 3 = Some out'
         \<and> set out \<subseteq> set out'"
    by blast
  have v1: "validateOptimized [0, 1] [2, 1] ?wm [0, 0, 0] 12 = Some (False, [13, 13, 12])"
    by (simp add: validateOptimized_def store_def load_def thresholds_def)
  have v2: "validateOptimized [0, 1] [2, 1] ?wm' [0, 0, 0] 12 = Some (True, [13, 13, 13])"
    by (simp add: validateOptimized_def store_def load_def thresholds_def)
  have s: "set [''bill_w''] \<subseteq> set [''bill_w'', ''w_william'']" by simp
  obtain d0 w2m t where c: "convertWordToMatches [(''bill'', [''bill'', ''william'']), (''w'', [''w''])]
           (NewDictionary, Map.empty, Map.empty) = (d0, w2m, t)"
    by (metis prod_cases3)
  then have f: "intToStr d0 = [''bill'', ''william'', ''w'']" "w2m 0 = Some [0, 1]" "w2m 2 = Some [2]"
    "t 0 = Some [0, 1]" "t 2 = Some [2]"
    by (auto simp: NewDictionary_def GetID_def Let_def)
  then have l: "length (intToStr d0) \<le> 2 ^ 32" by simp
  from mono c l have r: "t = tradeoutsOf d0 w2m" by blast
  have y: "\<exists>d0 w2m t. convertWordToMatches [(''bill'', [''bill'', ''william'']), (''w'', [''w''])]
           (NewDictionary, Map.empty, Map.empty) = (d0, w2m, t)
         \<and> intToStr d0 = [''bill'', ''william'', ''w''] \<and> length (intToStr d0) \<le> 2 ^ 32
         \<and> w2m 0 = Some [0, 1] \<and> w2m 2 = Some [2]
         \<and> t = tradeoutsOf d0 w2m \<and> t 0 = Some [0, 1] \<and> t 2 = Some [2]"
    using c f l r by blast
  from h1 exampleNames_keys s v1 v2 exampleNames_small exampleNames_large out y
  show ?thesis by (intro conjI)
qed

text \<open>
  C3 as stated fails. A worker that receives the names \<open>a b\<close> and \<open>b a\<close>, both indexed
  under the pair-key \<open>a_b\<close>, writes the line of the pair \<open>(a b, b a)\<close> when it processes
  \<open>a b\<close> and, \<open>seenMatches\<close> having been cleared, again when it processes \<open>b a\<close>: its
  output holds the same pair twice.
\<close>

theorem processBatch_repeats_pair:
  "processBatch [''a b'', ''b a''] exampleData 2
     = Some [matchString ''a b'' ''b a'' @ newline, matchString ''a b'' ''b a'' @ newline]
   \<and> \<not> distinct [matchString ''a b'' ''b a'' @ newline, matchString ''a b'' ''b a'' @ newline]"
  by (simp add: processBatch_def exampleData_first exampleData_second)

text \<open>
  C3, amended. While a worker processes one input name, every line it appends is new:
  the lines written for that name are pairwise distinct, so the line of each name pair
  occurs at most once among them. (Nothing is said across different input names.)
\<close>

theorem per_name_dedup:
  assumes "processName data name w = Some w'"
  shows "\<exists>new. written w' = written w @ new \<and> distinct new
           \<and> (\<forall>n1 n2. count_list new (matchString n1 n2 @ newline) \<le> 1)"
proof (cases "length (lookupWords (NameWords data) name) < 2")
  case True
  with assms have "w' = w" by (simp add: processName_def)
  then have "written w' = written w @ [] \<and> distinct ([] :: string list)
      \<and> (\<forall>n1 n2. count_list ([] :: string list) (matchString n1 n2 @ newline) \<le> 1)" by simp
  then show ?thesis by blast
next
  case False
  with assms obtain pairs where
    l: "loopPairs data name pairs (w\<lparr>seenMatches := {}\<rparr>) = Some w'"
    by (auto simp: processName_def Let_def split: option.splits)
  have "nameInv (written w) (w\<lparr>seenMatches := {}\<rparr>)"
    by (simp add: nameInv_def)
  with l have "nameInv (written w) w'" by (rule loopPairs_nameInv)
  then obtain new where new: "written w' = written w @ new" "distinct new"
    unfolding nameInv_def by blast
  have "count_list new x \<le> 1" for x
    using new(2) by (rule distinct_count_list_le)
  with new show ?thesis by blast
qed

theorem per_name_dedup_witness:
  "processName exampleData ''a b'' (newWorker 2) =
     Some \<lparr>matchesBuffer = [13, 13], currentGen = 12,
           seenMatches = {matchString ''a b'' ''b a''},
           written = [matchString ''a b'' ''b a'' @ newline]\<rparr>
   \<and> (\<exists>new. [matchString ''a b'' ''b a'' @ newline] = written (newWorker 2) @ new \<and> distinct new
           \<and> count_list new (matchString ''a b'' ''b a'' @ newline) \<le> 1)"
proof -
  from per_name_dedup [OF exampleData_first] obtain new where
    "[matchString ''a b'' ''b a'' @ newline] = written (newWorker 2) @ new" "distinct new"
    "\<forall>n1 n2. count_list new (matchString n1 n2 @ newline) \<le> 1"
    by auto
  then have "[matchString ''a b'' ''b a'' @ newline] = written (newWorker 2) @ new \<and> distinct new
           \<and> count_list new (matchString ''a b'' ''b a'' @ newline) \<le> 1"
    by blast
  then show ?thesis using exampleData_first by blast
qed

text \<open>
  C8. Every line of a worker's output is an opening parenthesis, a name \<open>n1\<close> in double
  quotes, a comma and a space, a name \<open>n2\<close> in double quotes, a closing parenthesis and a
  newline, with \<open>n1 < n2\<close> in the byte-wise order of strings; so the two names differ and
  no name is paired with itself, whatever names the worker receives and however often.
  On well-formed data the worker runs to the end without a panic.
\<close>

theorem output_lines_canonical:
  "(wellFormed data \<longrightarrow> (\<exists>out. processBatch jobs data dictSize = Some out))
   \<and> (\<forall>out. processBatch jobs data dictSize = Some out \<longrightarrow>
        (\<forall>line \<in> set out. \<exists>n1 n2.
           line = ''('' @ [CHR 0x22] @ n1 @ [CHR 0x22] @ '', '' @ [CHR 0x22] @ n2 @ [CHR 0x22] @ '')''
                    @ [CHR 0x0A]
           \<and> n1 < n2 \<and> n1 \<noteq> n2))"
proof (intro conjI impI allI)
  assume "wellFormed data"
  then show "\<exists>out. processBatch jobs data dictSize = Some out" by (rule processBatch_Some)
next
  fix out
  assume "processBatch jobs data dictSize = Some out"
  then obtain w where w: "loopJobs data jobs (newWorker dictSize) = Some w" "out = written w"
    by (auto simp: processBatch_def split: option.splits)
  from loopJobs_written [OF w(1)] have "\<forall>line \<in> set out. goodLine line"
    using w(2) by (auto simp: newWorker_def)
  then show "\<forall>line \<in> set out. \<exists>n1 n2.
           line = ''('' @ [CHR 0x22] @ n1 @ [CHR 0x22] @ '', '' @ [CHR 0x22] @ n2 @ [CHR 0x22] @ '')''
                    @ [CHR 0x0A]
           \<and> n1 < n2 \<and> n1 \<noteq> n2"
    by (fastforce simp: goodLine_def matchString_def newline_def)
qed

theorem output_lines_canonical_witness:
  "wellFormed exampleData
   \<and> processBatch [''a b'', ''b a''] exampleData 2
     = Some [matchString ''a b'' ''b a'' @ newline, matchString ''a b'' ''b a'' @ newline]
   \<and> (\<exists>n1 n2.
         matchString ''a b'' ''b a'' @ newline
           = ''('' @ [CHR 0x22] @ n1 @ [CHR 0x22] @ '', '' @ [CHR 0x22] @ n2 @ [CHR 0x22] @ '')''
               @ [CHR 0x0A]
         \<and> n1 < n2 \<and> n1 \<noteq> n2)"
proof -
  have e: "processBatch [''a b'', ''b a''] exampleData 2
     = Some [matchString ''a b'' ''b a'' @ newline, matchString ''a b'' ''b a'' @ newline]"
    by (simp add: processBatch_def exampleData_first exampleData_second)
  from output_lines_canonical [of exampleData "[''a b'', ''b a'']" 2, THEN conjunct2, rule_format, OF e]
  have "\<exists>n1 n2.
         matchString ''a b'' ''b a'' @ newline
           = ''('' @ [CHR 0x22] @ n1 @ [CHR 0x22] @ '', '' @ [CHR 0x22] @ n2 @ [CHR 0x22] @ '')''
               @ [CHR 0x0A]
         \<and> n1 < n2 \<and> n1 \<noteq> n2"
    by simp
  with e exampleData_wellFormed show ?thesis by (intro conjI)
qed

text \<open>
  C7 as stated fails for "any number" of calls, because the counter is a 64-bit unsigned
  integer. After \<open>2 ^ 63 - 6\<close> validator calls (here with an empty table, so that nothing
  is ever marked) the counter is \<open>2 ^ 64 - 2\<close>, the next call's phase generation
  \<open>currentGen + 2\<close> wraps to 0, and the zero-initialised cell 0 equals it although the
  marking loop of that call stamps nothing.
\<close>

theorem generation_wraps_counterexample:
  "runCalls Map.empty (replicate (2 ^ 63 - 6) ([0, 1], [1, 0])) (replicate 2 0, 10)
     = Some (replicate 2 0, 18446744073709551614)
   \<and> (18446744073709551614 + 2 :: u64) = 0
   \<and> populate [1, 0] Map.empty (replicate 2 0) (18446744073709551614 + 2) = Some (replicate 2 0)
   \<and> replicate 2 (0 :: u64) ! 0 = 18446744073709551614 + 2
   \<and> 0 \<notin> unat ` closure Map.empty [1, 0]"
proof -
  have "(10 + 2 * of_nat (2 ^ 63 - 6) :: u64) = 18446744073709551614" by simp
  then have "runCalls Map.empty (replicate (2 ^ 63 - 6) ([0, 1], [1, 0])) (replicate 2 0, 10)
     = Some (replicate 2 0, 18446744073709551614)"
    using runCalls_empty_table [of "2 ^ 63 - 6" "([0, 1], [1, 0])" "replicate 2 0" 10] by simp
  moreover have "(18446744073709551614 + 2 :: u64) = 0" by simp
  moreover have "populate [1, 0] Map.empty (replicate 2 0) (18446744073709551614 + 2) = Some (replicate 2 0)"
    by simp
  moreover have "replicate 2 (0 :: u64) ! 0 = 18446744073709551614 + 2" by simp
  moreover have "0 \<notin> unat ` closure Map.empty [1, 0]" by (simp add: closure_def)
  ultimately show ?thesis by blast
qed

text \<open>
  C7, amended. The buffer and counter a worker holds after processing any jobs are those
  of some sequence of validator calls started from the zeroed buffer and the counter 10.
  After any sequence of \<open>k\<close> such calls with \<open>2 * k + 13 < 2 ^ 64\<close> the counter is
  \<open>10 + 2 * k\<close>, and in the next call, whose phases use \<open>gen = counter + 2\<close> and \<open>gen + 1\<close>,
  neither value occurs in the buffer beforehand; a cell equals \<open>gen\<close> after the first
  marking loop exactly if the loop marked it, and equals \<open>gen + 1\<close> after the second
  marking loop exactly if that loop marked it.
\<close>

theorem generation_isolation:
  "(2 * length calls + 13 < 2 ^ 64 \<longrightarrow>
      (\<exists>buf g. runCalls wm calls (replicate n 0, 10) = Some (buf, g)
         \<and> unat g = 10 + 2 * length calls
         \<and> length buf = n
         \<and> g + 2 \<notin> set buf \<and> g + 2 + 1 \<notin> set buf
         \<and> (\<forall>A B. \<exists>buf1 buf2.
               populate B wm buf (g + 2) = Some buf1
               \<and> populate A wm buf1 (g + 2 + 1) = Some buf2
               \<and> (\<forall>x < n. buf1 ! x = g + 2 \<longleftrightarrow> x \<in> unat ` closure wm B)
               \<and> (\<forall>x < n. buf2 ! x = g + 2 + 1 \<longleftrightarrow> x \<in> unat ` closure wm A))))
   \<and> (\<forall>data jobs w. loopJobs data jobs (newWorker n) = Some w \<longrightarrow>
         (\<exists>calls. runCalls (WordToMatches data) calls (replicate n 0, 10)
                    = Some (matchesBuffer w, currentGen w)))"
proof (intro conjI impI allI)
  assume bound: "2 * length calls + 13 < 2 ^ 64"
  let ?k = "length calls"
  let ?g = "of_nat (10 + 2 * ?k) :: u64"
  from runCalls_inv [of 0 "replicate n 0" calls wm] bufInv_zero bound obtain buf where
    r: "runCalls wm calls (replicate n 0, 10) = Some (buf, ?g)" "bufInv ?k buf" "length buf = n"
    by auto
  have ug: "unat ?g = 10 + 2 * ?k"
    using bound by (intro unat_gen) simp
  have f1: "?g + 2 \<notin> set buf" and f2: "?g + 2 + 1 \<notin> set buf"
    using bufInv_fresh [OF r(2) bound] by simp_all
  have iso: "\<exists>buf1 buf2.
               populate B wm buf (?g + 2) = Some buf1
               \<and> populate A wm buf1 (?g + 2 + 1) = Some buf2
               \<and> (\<forall>x < n. buf1 ! x = ?g + 2 \<longleftrightarrow> x \<in> unat ` closure wm B)
               \<and> (\<forall>x < n. buf2 ! x = ?g + 2 + 1 \<longleftrightarrow> x \<in> unat ` closure wm A)" for A B
  proof -
    let ?b1 = "stamp_spec (closure wm B) (?g + 2) buf"
    let ?b2 = "stamp_spec (closure wm A) (?g + 2 + 1) ?b1"
    have "?g + 2 + 1 \<notin> set ?b1"
      using f2 by (rule fresh_after_stamp) simp
    then have "\<forall>x < n. ?b2 ! x = ?g + 2 + 1 \<longleftrightarrow> x \<in> unat ` closure wm A"
      using r(3) by (simp add: stamp_fresh_iff length_stamp_spec)
    moreover have "\<forall>x < n. ?b1 ! x = ?g + 2 \<longleftrightarrow> x \<in> unat ` closure wm B"
      using f1 r(3) by (simp add: stamp_fresh_iff)
    moreover have "populate B wm buf (?g + 2) = Some ?b1" "populate A wm ?b1 (?g + 2 + 1) = Some ?b2"
      by (simp_all add: populate_eq)
    ultimately show ?thesis by blast
  qed
  show "\<exists>buf g. runCalls wm calls (replicate n 0, 10) = Some (buf, g)
         \<and> unat g = 10 + 2 * length calls
         \<and> length buf = n
         \<and> g + 2 \<notin> set buf \<and> g + 2 + 1 \<notin> set buf
         \<and> (\<forall>A B. \<exists>buf1 buf2.
               populate B wm buf (g + 2) = Some buf1
               \<and> populate A wm buf1 (g + 2 + 1) = Some buf2
               \<and> (\<forall>x < n. buf1 ! x = g + 2 \<longleftrightarrow> x \<in> unat ` closure wm B)
               \<and> (\<forall>x < n. buf2 ! x = g + 2 + 1 \<longleftrightarrow> x \<in> unat ` closure wm A))"
    using r(1,3) ug f1 f2 iso by blast
next
  fix data jobs w
  assume "loopJobs data jobs (newWorker n) = Some w"
  from loopJobs_calls [OF this]
  show "\<exists>calls. runCalls (WordToMatches data) calls (replicate n 0, 10)
                    = Some (matchesBuffer w, currentGen w)"
    by (simp add: newWorker_def)
qed

theorem generation_isolation_witness:
  "2 * length [([0, 1 :: u32], [1, 0 :: u32])] + 13 < (2 :: nat) ^ 64
   \<and> runCalls [0 \<mapsto> [0], 1 \<mapsto> [1]] [([0, 1], [1, 0])] (replicate 2 0, 10) = Some ([13, 13], 12)
   \<and> (12 + 2 :: u64) \<notin> set [13, 13] \<and> (12 + 2 + 1 :: u64) \<notin> set [13, 13]
   \<and> populate [1] [0 \<mapsto> [0], 1 \<mapsto> [1]] [13, 13] (12 + 2) = Some [13, 14]
   \<and> (1 :: nat) < 2 \<and> [13, 14 :: u64] ! 1 = 12 + 2 \<and> 1 \<in> unat ` closure [0 \<mapsto> [0], 1 \<mapsto> [1]] [1]
   \<and> loopJobs exampleData [''a b''] (newWorker 2) =
        Some \<lparr>matchesBuffer = [13, 13], currentGen = 12,
           seenMatches = {matchString ''a b'' ''b a''},
           written = [matchString ''a b'' ''b a'' @ newline]\<rparr>
   \<and> (\<exists>calls. runCalls (WordToMatches exampleData) calls (replicate 2 0, 10) = Some ([13, 13], 12))"
proof -
  note gi = generation_isolation [of "[([0, 1], [1, 0])]" "[0 \<mapsto> [0], 1 \<mapsto> [1]]" 2]
  have bound: "2 * length [([0, 1 :: u32], [1, 0 :: u32])] + 13 < (2 :: nat) ^ 64" by simp
  have run: "runCalls [0 \<mapsto> [0], 1 \<mapsto> [1]] [([0, 1], [1, 0])] (replicate 2 0, 10) = Some ([13, 13], 12)"
    by (simp add: validateCall_def validateOptimized_def store_def load_def thresholds_def
          numeral_2_eq_2)
  have job: "loopJobs exampleData [''a b''] (newWorker 2) =
        Some \<lparr>matchesBuffer = [13, 13], currentGen = 12,
           seenMatches = {matchString ''a b'' ''b a''},
           written = [matchString ''a b'' ''b a'' @ newline]\<rparr>"
    by (simp add: exampleData_first)
  from gi [THEN conjunct2, rule_format, OF job] have calls:
    "\<exists>calls. runCalls (WordToMatches exampleData) calls (replicate 2 0, 10) = Some ([13, 13], 12)"
    by simp
  from gi [THEN conjunct1, rule_format, OF bound] obtain buf g where
    bg: "runCalls [0 \<mapsto> [0], 1 \<mapsto> [1]] [([0, 1], [1, 0])] (replicate 2 0, 10) = Some (buf, g)"
        "g + 2 \<notin> set buf" "g + 2 + 1 \<notin> set buf"
    by blast
  from bg(1) run have "buf = [13, 13]" "g = 12" by simp_all
  with bg(2,3) have fresh: "(12 + 2 :: u64) \<notin> set [13, 13]" "(12 + 2 + 1 :: u64) \<notin> set [13, 13]"
    by simp_all
  have pop: "populate [1] [0 \<mapsto> [0], 1 \<mapsto> [1]] [13, 13] (12 + 2) = Some [13, 14]"
    by (simp add: store_def)
  have rest: "(1 :: nat) < 2" "[13, 14 :: u64] ! 1 = 12 + 2"
    "1 \<in> unat ` closure [0 \<mapsto> [0], 1 \<mapsto> [1]] [1]"
    by (simp_all add: closure_def)
  from bound run fresh pop rest job calls show ?thesis by (intro conjI)
qed

end
